theory Spec2Isabelle
  imports Main "HOL-Library.Word"
begin

unbundle bit_operations_syntax

text \<open>
  Conway's Game of Life in C++: the zoo of patterns and the two file formats (zoo.cpp),
  over the Grid and World classes declared in grid.h and world.h.  The functions of
  zoo.cpp are embedded as they are written: loops as recursive functions, exceptions as
  the left injection of a sum, the streams as explicit state.
\<close>

section \<open>Cells, errors and the Grid\<close>

text \<open>
  \<^verbatim>\<open>enum Cell : char { DEAD = ' ', ALIVE = '#' };\<close> (grid.h).  The enumeration has
  underlying type \<^verbatim>\<open>char\<close>, so a Cell can hold every byte value; the two enumerators
  are the two named ones.  The casts \<^verbatim>\<open>(Cell) x\<close> and \<^verbatim>\<open>(char) cell\<close> keep the byte.
\<close>

type_synonym Cell = char

definition DEAD :: Cell where
  "DEAD = CHR '' ''"

definition ALIVE :: Cell where
  "ALIVE = CHR ''#''"

text \<open>
  Every \<^verbatim>\<open>throw\<close> of zoo.cpp is a constructor named after its message; the two
  errors of the Grid class (its implementation file is not part of the sources)
  are the bounds error and the invalid-dimension error of the specification.
\<close>

datatype error =
    UnableToOpen
  | NotPositiveInteger
  | BadCellCharacter
  | NewlineNotFound
  | FileEndedUnexpectedly
  | AnErrorOccured
  | BoundsError
  | InvalidDimension

text \<open>The error taxonomy of the specification (section 7).\<close>

datatype error_kind = Bounds | InvalidDim | MalformedContent | IOFailure

fun kind_of :: "error \<Rightarrow> error_kind" where
  "kind_of UnableToOpen = IOFailure"
| "kind_of NotPositiveInteger = InvalidDim"
| "kind_of BadCellCharacter = MalformedContent"
| "kind_of NewlineNotFound = MalformedContent"
| "kind_of FileEndedUnexpectedly = IOFailure"
| "kind_of AnErrorOccured = IOFailure"
| "kind_of BoundsError = Bounds"
| "kind_of InvalidDimension = InvalidDim"

text \<open>
  \<^verbatim>\<open>class Grid { std::vector<Cell> theGrid; int num_columns, num_rows; ... }\<close>
\<close>

record Grid =
  theGrid :: "Cell list"
  num_columns :: int
  num_rows :: int

text \<open>
  Modelled from the spec: \<^verbatim>\<open>get_width\<close> and \<^verbatim>\<open>get_height\<close> (bodies in the
  missing grid.cpp) are pure queries that return the two dimensions.
\<close>

definition get_width :: "Grid \<Rightarrow> int" where
  "get_width g = num_columns g"

definition get_height :: "Grid \<Rightarrow> int" where
  "get_height g = num_rows g"

text \<open>
  Modelled from the spec: the constructor \<^verbatim>\<open>Grid(width, height)\<close> (body in the missing
  grid.cpp; grid.h only declares the members) makes every cell DEAD and reports
  negative dimensions as an invalid-dimension error.
\<close>

definition Grid_wh :: "int \<Rightarrow> int \<Rightarrow> error + Grid" where
  "Grid_wh width height =
     (if width < 0 \<or> height < 0 then Inl InvalidDimension
      else Inr \<lparr>theGrid = replicate (nat (width * height)) DEAD,
                num_columns = width, num_rows = height\<rparr>)"

text \<open>
  Modelled from the spec: \<^verbatim>\<open>get_index\<close> is row-major, \<open>index = y * width + x\<close>.
\<close>

definition get_index :: "Grid \<Rightarrow> int \<Rightarrow> int \<Rightarrow> int" where
  "get_index g x y = y * num_columns g + x"

definition in_bounds :: "Grid \<Rightarrow> int \<Rightarrow> int \<Rightarrow> bool" where
  "in_bounds g x y \<longleftrightarrow> 0 \<le> x \<and> x < num_columns g \<and> 0 \<le> y \<and> y < num_rows g"

text \<open>
  Modelled from the spec: \<^verbatim>\<open>get\<close> and the indexed read \<^verbatim>\<open>operator()\<close> return the
  cell at \<open>(x, y)\<close> and fail with the bounds error outside the grid.
\<close>

definition get :: "Grid \<Rightarrow> int \<Rightarrow> int \<Rightarrow> error + Cell" where
  "get g x y =
     (if in_bounds g x y then Inr (theGrid g ! nat (get_index g x y))
      else Inl BoundsError)"

text \<open>
  Modelled from the spec: \<^verbatim>\<open>set\<close> stores the cell at \<open>(x, y)\<close> under the same bounds
  contract.  The byte is stored as it is given (zoo.cpp only ever passes one of the
  two named values).
\<close>

definition set_cell :: "Grid \<Rightarrow> int \<Rightarrow> int \<Rightarrow> Cell \<Rightarrow> error + Grid" where
  "set_cell g x y c =
     (if in_bounds g x y
      then Inr (g\<lparr>theGrid := (theGrid g)[nat (get_index g x y) := c]\<rparr>)
      else Inl BoundsError)"

text \<open>
  The class invariant: the buffer holds \<open>width * height\<close> cells, and the dimensions
  and the cell count (\<^verbatim>\<open>int get_total_cells()\<close>) are values of the 32-bit type \<^verbatim>\<open>int\<close>.
\<close>

definition INT_MAX :: int where
  "INT_MAX = 2147483647"

definition INT_MIN :: int where
  "INT_MIN = - 2147483648"

definition grid_ok :: "Grid \<Rightarrow> bool" where
  "grid_ok g \<longleftrightarrow>
     0 \<le> num_columns g \<and> 0 \<le> num_rows g \<and>
     int (length (theGrid g)) = num_columns g * num_rows g \<and>
     num_columns g \<le> INT_MAX \<and> num_rows g \<le> INT_MAX \<and>
     num_columns g * num_rows g \<le> INT_MAX"

definition legal_cells :: "Grid \<Rightarrow> bool" where
  "legal_cells g \<longleftrightarrow> list_all (\<lambda>c. c = ALIVE \<or> c = DEAD) (theGrid g)"

section \<open>The zoo\<close>

text \<open>
  \<^verbatim>\<open>Grid Zoo::glider()\<close>: five calls of \<^verbatim>\<open>set\<close> on a fresh 3x3 grid, each of which
  can throw.
\<close>

fun set_all :: "Grid \<Rightarrow> (int \<times> int) list \<Rightarrow> error + Grid" where
  "set_all g [] = Inr g"
| "set_all g ((x, y) # ps) =
     (case set_cell g x y ALIVE of Inl e \<Rightarrow> Inl e | Inr g' \<Rightarrow> set_all g' ps)"

definition glider :: "error + Grid" where
  "glider =
     (case Grid_wh 3 3 of Inl e \<Rightarrow> Inl e
      | Inr grid \<Rightarrow> set_all grid [(0, 2), (1, 2), (2, 2), (2, 1), (1, 0)])"

section \<open>Files and streams\<close>

text \<open>
  A path of the file system holds no file, a file that cannot be opened, or a file
  with its bytes.  \<^verbatim>\<open>std::ifstream\<close> opens only an existing file; \<^verbatim>\<open>std::ofstream\<close>
  creates or truncates the file unless it cannot be opened.
\<close>

datatype 'a node = Missing | Locked | Data "'a list"

type_synonym 'a filesystem = "string \<Rightarrow> 'a node"

text \<open>
  The part of \<^verbatim>\<open>std::ifstream\<close> that zoo.cpp uses: the bytes not yet read and
  the two state bits.  \<^verbatim>\<open>good()\<close> means that neither bit is set, \<^verbatim>\<open>eof()\<close> reads
  \<open>eofbit\<close>.
\<close>

record 'a istream =
  pending :: "'a list"
  eofbit :: bool
  failbit :: bool

definition good :: "'a istream \<Rightarrow> bool" where
  "good s \<longleftrightarrow> \<not> eofbit s \<and> \<not> failbit s"

definition open_in :: "'a filesystem \<Rightarrow> string \<Rightarrow> 'a istream option" where
  "open_in fs path =
     (case fs path of
        Data bs \<Rightarrow> Some \<lparr>pending = bs, eofbit = False, failbit = False\<rparr>
      | _ \<Rightarrow> None)"

text \<open>
  \<^verbatim>\<open>inFile.get(x)\<close>: on a stream that is not good the call only sets \<open>failbit\<close>; at
  the end of the file it sets both bits; in both cases \<open>x\<close> keeps its old value.
\<close>

definition stream_get :: "'a istream \<Rightarrow> 'a \<Rightarrow> 'a istream \<times> 'a" where
  "stream_get s x =
     (if \<not> good s then (s\<lparr>failbit := True\<rparr>, x)
      else case pending s of
             [] \<Rightarrow> (s\<lparr>eofbit := True, failbit := True\<rparr>, x)
           | c # cs \<Rightarrow> (s\<lparr>pending := cs\<rparr>, c))"

text \<open>
  \<^verbatim>\<open>inFile.read(p, n)\<close> overwrites the first bytes of the object at \<open>p\<close> with the
  bytes that are left, at most \<open>n\<close>; when fewer than \<open>n\<close> are left it sets both bits
  and the rest of the object keeps its old content.
\<close>

definition stream_read :: "'a istream \<Rightarrow> nat \<Rightarrow> 'a list \<Rightarrow> 'a istream \<times> 'a list" where
  "stream_read s n old =
     (if \<not> good s then (s\<lparr>failbit := True\<rparr>, old)
      else if n \<le> length (pending s)
      then (s\<lparr>pending := drop n (pending s)\<rparr>, take n (pending s))
      else (s\<lparr>pending := [], eofbit := True, failbit := True\<rparr>,
            pending s @ drop (length (pending s)) old))"

subsection \<open>Decimal integers in text\<close>

definition isspace :: "char \<Rightarrow> bool" where
  "isspace c \<longleftrightarrow> c \<in> set [CHR '' '', CHR 0x09, CHR 0x0A, CHR 0x0B, CHR 0x0C, CHR 0x0D]"

definition isdigit :: "char \<Rightarrow> bool" where
  "isdigit c \<longleftrightarrow> c \<in> set ''0123456789''"

fun index_of :: "char \<Rightarrow> string \<Rightarrow> nat" where
  "index_of c [] = 0"
| "index_of c (d # ds) = (if c = d then 0 else Suc (index_of c ds))"

definition digit_val :: "char \<Rightarrow> int" where
  "digit_val c = int (index_of c ''0123456789'')"

definition digit_char :: "nat \<Rightarrow> char" where
  "digit_char d = ''0123456789'' ! d"

definition digits_value :: "string \<Rightarrow> int" where
  "digits_value ds = foldl (\<lambda>a c. 10 * a + digit_val c) 0 ds"

text \<open>
  \<^verbatim>\<open>inFile >> v\<close> for an \<^verbatim>\<open>int\<close>.  The conversion itself (\<open>scan_int\<close>) takes an
  optional sign and the decimal digits that follow and returns what is left, whether
  the conversion failed, and the value stored: without a digit it fails and stores 0;
  a value outside the range of \<^verbatim>\<open>int\<close> fails and stores the nearest bound.
\<close>

definition scan_int :: "string \<Rightarrow> string \<times> bool \<times> int" where
  "scan_int r =
     (let neg = (hd r = CHR ''-'');
          r1 = (if hd r = CHR ''-'' \<or> hd r = CHR ''+'' then tl r else r);
          ds = takeWhile isdigit r1;
          r2 = dropWhile isdigit r1;
          val = (if neg then - digits_value ds else digits_value ds)
      in if ds = [] then (r2, True, 0)
         else if INT_MAX < val then (r2, True, INT_MAX)
         else if val < INT_MIN then (r2, True, INT_MIN)
         else (r2, False, val))"

text \<open>
  Around the conversion: nothing is read from a stream that is not good (\<open>failbit\<close>
  is set, \<open>v\<close> is untouched); leading white space is skipped, and reaching the end
  of the file there sets both bits and leaves \<open>v\<close> untouched; \<open>eofbit\<close> is set
  when the digits run up to the end of the file.
\<close>

definition extract_int :: "char istream \<Rightarrow> int \<Rightarrow> char istream \<times> int" where
  "extract_int s v =
     (if \<not> good s then (s\<lparr>failbit := True\<rparr>, v)
      else case dropWhile isspace (pending s) of
             [] \<Rightarrow> (\<lparr>pending = [], eofbit = True, failbit = True\<rparr>, v)
           | c # cs \<Rightarrow>
               (case scan_int (c # cs) of
                  (r2, failed, val) \<Rightarrow>
                    (\<lparr>pending = r2, eofbit = (r2 = []), failbit = failed\<rparr>, val)))"

text \<open>\<^verbatim>\<open>outFile << v\<close> for an \<^verbatim>\<open>int\<close> writes the decimal digits, after a minus sign if needed.\<close>

function show_nat :: "nat \<Rightarrow> string" where
  "show_nat n =
     (if n < 10 then [digit_char n] else show_nat (n div 10) @ [digit_char (n mod 10)])"
  by pat_completeness auto
termination
  by (relation "measure (\<lambda>n. n)") auto

declare show_nat.simps [simp del]

definition show_int :: "int \<Rightarrow> string" where
  "show_int v = (if v < 0 then CHR ''-'' # show_nat (nat (- v)) else show_nat (nat v))"

section \<open>The text format\<close>

text \<open>
  \<^verbatim>\<open>void Zoo::save_ascii(std::string path, Grid grid)\<close>.  The output stream is the
  list of characters written so far.  The inner loop writes one row, the outer loop
  the rows, each followed by a newline.
\<close>

function save_ascii_row :: "Grid \<Rightarrow> int \<Rightarrow> int \<Rightarrow> string \<Rightarrow> error + string" where
  "save_ascii_row grid i j outFile =
     (if j < get_width grid
      then (case get grid j i of
              Inl e \<Rightarrow> Inl e
            | Inr c \<Rightarrow> save_ascii_row grid i (j + 1) (outFile @ [c]))
      else Inr outFile)"
  by pat_completeness auto
termination
  by (relation "measure (\<lambda>(grid, i, j, outFile). nat (get_width grid - j))") auto

declare save_ascii_row.simps [simp del]

function save_ascii_rows :: "Grid \<Rightarrow> int \<Rightarrow> string \<Rightarrow> error + string" where
  "save_ascii_rows grid i outFile =
     (if i < get_height grid
      then (case save_ascii_row grid i 0 outFile of
              Inl e \<Rightarrow> Inl e
            | Inr out \<Rightarrow> save_ascii_rows grid (i + 1) (out @ [CHR 0x0A]))
      else Inr outFile)"
  by pat_completeness auto
termination
  by (relation "measure (\<lambda>(grid, i, outFile). nat (get_height grid - i))") auto

declare save_ascii_rows.simps [simp del]

definition save_ascii :: "char filesystem \<Rightarrow> string \<Rightarrow> Grid \<Rightarrow> error + char filesystem" where
  "save_ascii fs path grid =
     (if fs path = Locked then Inl UnableToOpen
      else case save_ascii_rows grid 0
                  (show_int (get_width grid) @ [CHR '' ''] @
                   show_int (get_height grid) @ [CHR 0x0A]) of
             Inl e \<Rightarrow> Inl e
           | Inr out \<Rightarrow> Inr (fs(path := Data out)))"

text \<open>
  \<^verbatim>\<open>Grid Zoo::load_ascii(std::string path)\<close>.  The locals \<^verbatim>\<open>width\<close>, \<^verbatim>\<open>height\<close> and
  \<^verbatim>\<open>x\<close> are declared without a value; what they hold before the first successful
  read is given by the arguments \<open>width0\<close>, \<open>height0\<close> and \<open>x0\<close>.
\<close>

function load_ascii_row ::
  "int \<Rightarrow> int \<Rightarrow> int \<Rightarrow> char istream \<Rightarrow> char \<Rightarrow> Grid \<Rightarrow> error + (char istream \<times> char \<times> Grid)" where
  "load_ascii_row width i j inFile x gridReturned =
     (if j < width
      then (case stream_get inFile x of
              (inFile', x') \<Rightarrow>
                if x' \<noteq> CHR '' '' \<and> x' \<noteq> CHR ''#'' then Inl BadCellCharacter
                else (case set_cell gridReturned j i x' of
                        Inl e \<Rightarrow> Inl e
                      | Inr g' \<Rightarrow> load_ascii_row width i (j + 1) inFile' x' g'))
      else Inr (inFile, x, gridReturned))"
  by pat_completeness auto
termination
  by (relation "measure (\<lambda>(width, i, j, inFile, x, g). nat (width - j))") auto

declare load_ascii_row.simps [simp del]

function load_ascii_rows ::
  "int \<Rightarrow> int \<Rightarrow> int \<Rightarrow> char istream \<Rightarrow> char \<Rightarrow> Grid \<Rightarrow> error + (char istream \<times> char \<times> Grid)" where
  "load_ascii_rows width height i inFile x gridReturned =
     (if i < height
      then (case load_ascii_row width i 0 inFile x gridReturned of
              Inl e \<Rightarrow> Inl e
            | Inr (inFile1, x1, g1) \<Rightarrow>
                (case stream_get inFile1 x1 of
                   (inFile2, x2) \<Rightarrow>
                     if x2 \<noteq> CHR 0x0A then Inl NewlineNotFound
                     else load_ascii_rows width height (i + 1) inFile2 x2 g1))
      else Inr (inFile, x, gridReturned))"
  by pat_completeness auto
termination
  by (relation "measure (\<lambda>(width, height, i, inFile, x, g). nat (height - i))") auto

declare load_ascii_rows.simps [simp del]

definition load_ascii ::
  "int \<Rightarrow> int \<Rightarrow> char \<Rightarrow> char filesystem \<Rightarrow> string \<Rightarrow> error + Grid" where
  "load_ascii width0 height0 x0 fs path =
     (case open_in fs path of
        None \<Rightarrow> Inl UnableToOpen
      | Some inFile \<Rightarrow>
          (case extract_int inFile width0 of
             (inFile1, width) \<Rightarrow>
               (case extract_int inFile1 height0 of
                  (inFile2, height) \<Rightarrow>
                    if width < 0 \<or> height < 0 then Inl NotPositiveInteger
                    else
                      (case stream_get inFile2 x0 of
                         (inFile3, x) \<Rightarrow>
                           (case Grid_wh width height of
                              Inl e \<Rightarrow> Inl e
                            | Inr gridReturned \<Rightarrow>
                                (case load_ascii_rows width height 0 inFile3 x gridReturned of
                                   Inl e \<Rightarrow> Inl e
                                 | Inr (inFile4, x', g) \<Rightarrow>
                                     if \<not> good inFile4
                                     then (if eofbit inFile4 then Inl FileEndedUnexpectedly
                                           else Inl AnErrorOccured)
                                     else Inr g))))))"

section \<open>The text format as the specification words it\<close>

text \<open>
  Line 1 holds the width and the height in decimal, separated by one space; then every
  row is written as its \<open>width\<close> cell characters and a newline.
\<close>

definition row_cells :: "Grid \<Rightarrow> nat \<Rightarrow> Cell list" where
  "row_cells g i = take (nat (num_columns g)) (drop (i * nat (num_columns g)) (theGrid g))"

definition ascii_text :: "Grid \<Rightarrow> string" where
  "ascii_text g =
     show_int (num_columns g) @ [CHR '' ''] @ show_int (num_rows g) @ [CHR 0x0A] @
     concat (map (\<lambda>i. row_cells g i @ [CHR 0x0A]) [0..<nat (num_rows g)])"

text \<open>
  A text whose header parses: both extractions succeed; the result is the width, the
  height and the text that follows the digits of the height.
\<close>

definition ascii_header :: "string \<Rightarrow> (int \<times> int \<times> string) option" where
  "ascii_header txt =
     (case extract_int \<lparr>pending = txt, eofbit = False, failbit = False\<rparr> 0 of
        (s1, width) \<Rightarrow>
          (case extract_int s1 0 of
             (s2, height) \<Rightarrow>
               if failbit s2 then None else Some (width, height, pending s2)))"

section \<open>The binary format\<close>

type_synonym byte = "8 word"

text \<open>
  \<^verbatim>\<open>outFile.write((char*) &realWidth, sizeof(int))\<close> writes the object representation of
  the \<^verbatim>\<open>int\<close>: four bytes, least significant first on the usual little-endian
  platform, two's complement.  \<^verbatim>\<open>inFile.read((char*) &realWidth, sizeof(int))\<close>
  overwrites it.
\<close>

definition word_bytes :: "32 word \<Rightarrow> byte list" where
  "word_bytes w = map (\<lambda>k. ucast (drop_bit (8 * k) w)) [0, 1, 2, 3]"

definition bytes_word :: "byte list \<Rightarrow> 32 word" where
  "bytes_word bs = foldr (\<lambda>b a. ucast b OR push_bit 8 a) bs 0"

definition int_bytes :: "int \<Rightarrow> byte list" where
  "int_bytes v = word_bytes (word_of_int v)"

definition bytes_int :: "byte list \<Rightarrow> int" where
  "bytes_int bs = sint (bytes_word bs)"

text \<open>
  \<^verbatim>\<open>realWidth * realHeight\<close> multiplies two 32-bit \<^verbatim>\<open>int\<close> values: a product that
  does not fit wraps around in two's complement.
\<close>

definition int_mult :: "int \<Rightarrow> int \<Rightarrow> int" where
  "int_mult a b = sint (word_of_int (a * b) :: 32 word)"

text \<open>The division of C++ on \<^verbatim>\<open>int\<close> truncates towards zero.\<close>

definition cdiv :: "int \<Rightarrow> int \<Rightarrow> int" where
  "cdiv a b = sgn a * sgn b * (\<bar>a\<bar> div \<bar>b\<bar>)"

text \<open>
  \<^verbatim>\<open>void Zoo::save_binary(std::string path, Grid grid)\<close>.  The inner loop packs up to
  eight cells into \<^verbatim>\<open>buffer[0]\<close>, walking \<open>(column, row)\<close> in row-major order; the
  outer loop writes the byte and then clears the buffer.  \<^verbatim>\<open>char buffer[1];\<close> is
  declared without a value, and the first byte is packed on top of what it holds:
  that is the argument \<open>buffer0\<close>.
\<close>

function save_binary_bits ::
  "Grid \<Rightarrow> int \<Rightarrow> int \<Rightarrow> nat \<Rightarrow> byte \<Rightarrow> int \<Rightarrow> int \<Rightarrow> error + (byte \<times> int \<times> int)" where
  "save_binary_bits grid realWidth realHeight i buffer column row =
     (if i < 8 \<and> column \<le> realWidth - 1 \<and> row \<le> realHeight - 1
      then (case get grid column row of
              Inl e \<Rightarrow> Inl e
            | Inr c \<Rightarrow>
                (let buffer' = (if c = ALIVE then buffer OR push_bit i 1
                                else buffer OR push_bit i 0)
                 in if column + 1 = realWidth
                    then save_binary_bits grid realWidth realHeight (i + 1) buffer' 0 (row + 1)
                    else save_binary_bits grid realWidth realHeight (i + 1) buffer' (column + 1) row))
      else Inr (buffer, column, row))"
  by pat_completeness auto
termination
  by (relation "measure (\<lambda>(grid, w, h, i, buffer, column, row). 8 - i)") auto

declare save_binary_bits.simps [simp del]

function save_binary_bytes ::
  "Grid \<Rightarrow> int \<Rightarrow> int \<Rightarrow> int \<Rightarrow> byte list \<Rightarrow> byte \<Rightarrow> int \<Rightarrow> int \<Rightarrow> error + byte list" where
  "save_binary_bytes grid realWidth realHeight k outFile buffer column row =
     (if k < cdiv (int_mult realWidth realHeight) 8 + 1
      then (case save_binary_bits grid realWidth realHeight 0 buffer column row of
              Inl e \<Rightarrow> Inl e
            | Inr (buffer', column', row') \<Rightarrow>
                save_binary_bytes grid realWidth realHeight (k + 1)
                  (outFile @ [buffer']) 0 column' row')
      else Inr outFile)"
  by pat_completeness auto
termination
  by (relation "measure (\<lambda>(grid, w, h, k, outFile, buffer, column, row).
                  nat (cdiv (int_mult w h) 8 + 1 - k))") auto

declare save_binary_bytes.simps [simp del]

definition save_binary :: "byte \<Rightarrow> byte filesystem \<Rightarrow> string \<Rightarrow> Grid \<Rightarrow> error + byte filesystem" where
  "save_binary buffer0 fs path grid =
     (if fs path = Locked then Inl UnableToOpen
      else
        let realWidth = get_width grid; realHeight = get_height grid
        in case save_binary_bytes grid realWidth realHeight 0
                  (int_bytes realWidth @ int_bytes realHeight) buffer0 0 0 of
             Inl e \<Rightarrow> Inl e
           | Inr out \<Rightarrow> Inr (fs(path := Data out)))"

text \<open>
  \<^verbatim>\<open>Grid Zoo::load_binary(std::string path)\<close>.  \<^verbatim>\<open>realWidth\<close>, \<^verbatim>\<open>realHeight\<close> and
  \<^verbatim>\<open>buffer\<close> are declared without a value (arguments \<open>width0\<close>, \<open>height0\<close>,
  \<open>buffer0\<close>); a read that fails leaves them as they were.  The test
  \<^verbatim>\<open>((buffer[0] >> i) & 1) == 1\<close> reads bit \<open>i\<close> of the byte, for \<open>i < 8\<close>.  Reading
  one byte with \<^verbatim>\<open>read\<close> sets the state bits as \<^verbatim>\<open>get\<close> does.
\<close>

function load_binary_bits ::
  "int \<Rightarrow> int \<Rightarrow> nat \<Rightarrow> byte \<Rightarrow> Grid \<Rightarrow> int \<Rightarrow> int \<Rightarrow> error + (Grid \<times> int \<times> int)" where
  "load_binary_bits realWidth realHeight i buffer gridReturned column row =
     (if i < 8 \<and> column \<le> realWidth - 1 \<and> row \<le> realHeight - 1
      then (case (if drop_bit i buffer AND 1 = 1 then set_cell gridReturned column row ALIVE
                  else Inr gridReturned) of
              Inl e \<Rightarrow> Inl e
            | Inr g' \<Rightarrow>
                if column + 1 = realWidth
                then load_binary_bits realWidth realHeight (i + 1) buffer g' 0 (row + 1)
                else load_binary_bits realWidth realHeight (i + 1) buffer g' (column + 1) row)
      else Inr (gridReturned, column, row))"
  by pat_completeness auto
termination
  by (relation "measure (\<lambda>(w, h, i, buffer, g, column, row). 8 - i)") auto

declare load_binary_bits.simps [simp del]

function load_binary_bytes ::
  "int \<Rightarrow> int \<Rightarrow> int \<Rightarrow> byte istream \<Rightarrow> byte \<Rightarrow> Grid \<Rightarrow> int \<Rightarrow> int \<Rightarrow>
     error + (byte istream \<times> Grid)" where
  "load_binary_bytes realWidth realHeight k inFile buffer gridReturned column row =
     (if k < cdiv (int_mult realWidth realHeight) 8 + 1
      then (case stream_get inFile buffer of
              (inFile', buffer') \<Rightarrow>
                (case load_binary_bits realWidth realHeight 0 buffer' gridReturned column row of
                   Inl e \<Rightarrow> Inl e
                 | Inr (g', column', row') \<Rightarrow>
                     load_binary_bytes realWidth realHeight (k + 1) inFile' buffer' g' column' row'))
      else Inr (inFile, gridReturned))"
  by pat_completeness auto
termination
  by (relation "measure (\<lambda>(w, h, k, inFile, buffer, g, column, row).
                  nat (cdiv (int_mult w h) 8 + 1 - k))") auto

declare load_binary_bytes.simps [simp del]

definition load_binary ::
  "32 word \<Rightarrow> 32 word \<Rightarrow> byte \<Rightarrow> byte filesystem \<Rightarrow> string \<Rightarrow> error + Grid" where
  "load_binary width0 height0 buffer0 fs path =
     (case open_in fs path of
        None \<Rightarrow> Inl UnableToOpen
      | Some inFile \<Rightarrow>
          (case stream_read inFile 4 (word_bytes width0) of
             (inFile1, wbytes) \<Rightarrow>
               (case stream_read inFile1 4 (word_bytes height0) of
                  (inFile2, hbytes) \<Rightarrow>
                    (let realWidth = bytes_int wbytes; realHeight = bytes_int hbytes
                     in case Grid_wh realWidth realHeight of
                          Inl e \<Rightarrow> Inl e
                        | Inr gridReturned \<Rightarrow>
                            (case load_binary_bytes realWidth realHeight 0 inFile2 buffer0
                                    gridReturned 0 0 of
                               Inl e \<Rightarrow> Inl e
                             | Inr (inFile3, g) \<Rightarrow>
                                 if \<not> good inFile3
                                 then (if eofbit inFile3 then Inl FileEndedUnexpectedly
                                       else Inl AnErrorOccured)
                                 else Inr g)))))"

text \<open>
  The bit packing as the specification words it: cell \<open>i\<close> of the row-major buffer
  is bit \<open>i mod 8\<close> of body byte \<open>i div 8\<close>, 1 for ALIVE.
\<close>

definition cell_bit :: "Grid \<Rightarrow> nat \<Rightarrow> bool" where
  "cell_bit g i \<longleftrightarrow> i < length (theGrid g) \<and> theGrid g ! i = ALIVE"

definition packed_byte :: "Grid \<Rightarrow> nat \<Rightarrow> byte" where
  "packed_byte g k =
     fold (\<lambda>j b. if cell_bit g (8 * k + j) then b OR push_bit j 1 else b) [0, 1, 2, 3, 4, 5, 6, 7] 0"

text \<open>The header of a binary file: its first eight bytes, if it has them.\<close>

definition binary_header :: "byte list \<Rightarrow> (int \<times> int \<times> byte list) option" where
  "binary_header bs =
     (if length bs < 8 then None
      else Some (bytes_int (take 4 bs), bytes_int (take 4 (drop 4 bs)), drop 8 bs))"

text \<open>
  Where the walk of \<open>(column, row)\<close> stands after \<open>idx\<close> cells of a \<open>W\<close> by \<open>H\<close>
  grid: at the cell with row-major index \<open>idx\<close>, or past the last cell, where the
  loop condition \<^verbatim>\<open>column <= realWidth - 1 && row <= realHeight - 1\<close> is false.
\<close>

definition cursor_at :: "nat \<Rightarrow> nat \<Rightarrow> nat \<Rightarrow> int \<Rightarrow> int \<Rightarrow> bool" where
  "cursor_at W H idx column row \<longleftrightarrow>
     (idx < W * H \<and> column = int (idx mod W) \<and> row = int (idx div W)) \<or>
     (idx = W * H \<and> \<not> (column \<le> int W - 1 \<and> row \<le> int H - 1))"

text \<open>The number of body bytes the specification gives: \<open>ceil(cells / 8)\<close>.\<close>

definition ceil_bytes :: "int \<Rightarrow> nat" where
  "ceil_bytes cells = nat ((cells + 7) div 8)"

text \<open>A file system without files.\<close>

definition no_files :: "'a filesystem" where
  "no_files = (\<lambda>path. Missing)"

section \<open>The World\<close>

text \<open>\<^verbatim>\<open>class World { Grid current, future; ... }\<close> (world.h).\<close>

record World =
  current :: Grid
  future :: Grid

text \<open>
  Modelled from the spec: the bodies of the World members (world.cpp) are missing;
  world.h only declares them.  \<^verbatim>\<open>World(Grid initial_state)\<close> keeps the grid as
  \<^verbatim>\<open>current\<close> and allocates \<^verbatim>\<open>future\<close> with the same dimensions, all DEAD;
  \<^verbatim>\<open>get_state\<close> returns a copy of \<^verbatim>\<open>current\<close>.
\<close>

definition World_of :: "Grid \<Rightarrow> error + World" where
  "World_of initial_state =
     (case Grid_wh (get_width initial_state) (get_height initial_state) of
        Inl e \<Rightarrow> Inl e
      | Inr f \<Rightarrow> Inr \<lparr>current = initial_state, future = f\<rparr>)"

definition get_state :: "World \<Rightarrow> Grid" where
  "get_state w = current w"

text \<open>
  Modelled from the spec: \<^verbatim>\<open>count_neighbours(x, y, toroidal)\<close> counts the ALIVE cells
  among the eight positions around \<open>(x, y)\<close> in \<^verbatim>\<open>current\<close>.  Without \<open>toroidal\<close> a
  position outside the grid does not count; with it each coordinate wraps modulo the
  width or the height, so that \<open>-1\<close> becomes \<open>width - 1\<close>.
\<close>

definition moore_offsets :: "(int \<times> int) list" where
  "moore_offsets = [(- 1, - 1), (0, - 1), (1, - 1), (- 1, 0), (1, 0), (- 1, 1), (0, 1), (1, 1)]"

definition neighbour_alive :: "Grid \<Rightarrow> bool \<Rightarrow> int \<Rightarrow> int \<Rightarrow> bool" where
  "neighbour_alive g toroidal nx ny =
     (if toroidal
      then get g (nx mod get_width g) (ny mod get_height g) = Inr ALIVE
      else in_bounds g nx ny \<and> get g nx ny = Inr ALIVE)"

definition count_neighbours :: "Grid \<Rightarrow> int \<Rightarrow> int \<Rightarrow> bool \<Rightarrow> int" where
  "count_neighbours g x y toroidal =
     int (length (filter (\<lambda>(dx, dy). neighbour_alive g toroidal (x + dx) (y + dy)) moore_offsets))"

text \<open>
  Modelled from the spec: the rule of \<^verbatim>\<open>step\<close> for one cell, and \<^verbatim>\<open>step\<close> itself: a
  pass over every cell of \<^verbatim>\<open>current\<close> that writes \<^verbatim>\<open>future\<close>, and then the swap of
  the two buffers.
\<close>

definition next_cell :: "Cell \<Rightarrow> int \<Rightarrow> Cell" where
  "next_cell c n =
     (if c = ALIVE \<and> (n = 2 \<or> n = 3) then ALIVE
      else if c = DEAD \<and> n = 3 then ALIVE
      else DEAD)"

function step_row :: "Grid \<Rightarrow> bool \<Rightarrow> int \<Rightarrow> int \<Rightarrow> Grid \<Rightarrow> error + Grid" where
  "step_row cur toroidal y x fut =
     (if x < get_width cur
      then (case get cur x y of
              Inl e \<Rightarrow> Inl e
            | Inr c \<Rightarrow>
                (case set_cell fut x y (next_cell c (count_neighbours cur x y toroidal)) of
                   Inl e \<Rightarrow> Inl e
                 | Inr fut' \<Rightarrow> step_row cur toroidal y (x + 1) fut'))
      else Inr fut)"
  by pat_completeness auto
termination
  by (relation "measure (\<lambda>(cur, toroidal, y, x, fut). nat (get_width cur - x))") auto

declare step_row.simps [simp del]

function step_rows :: "Grid \<Rightarrow> bool \<Rightarrow> int \<Rightarrow> Grid \<Rightarrow> error + Grid" where
  "step_rows cur toroidal y fut =
     (if y < get_height cur
      then (case step_row cur toroidal y 0 fut of
              Inl e \<Rightarrow> Inl e
            | Inr fut' \<Rightarrow> step_rows cur toroidal (y + 1) fut')
      else Inr fut)"
  by pat_completeness auto
termination
  by (relation "measure (\<lambda>(cur, toroidal, y, fut). nat (get_height cur - y))") auto

declare step_rows.simps [simp del]

definition step :: "World \<Rightarrow> bool \<Rightarrow> error + World" where
  "step w toroidal =
     (case step_rows (current w) toroidal 0 (future w) of
        Inl e \<Rightarrow> Inl e
      | Inr fut \<Rightarrow> Inr \<lparr>current = fut, future = current w\<rparr>)"

text \<open>The invariant of a World: two well-formed grids of the same dimensions.\<close>

definition world_ok :: "World \<Rightarrow> bool" where
  "world_ok w \<longleftrightarrow>
     grid_ok (current w) \<and> grid_ok (future w) \<and>
     num_columns (future w) = num_columns (current w) \<and>
     num_rows (future w) = num_rows (current w)"

text \<open>
  The next generation as the specification words it, cell by cell: the cell with
  row-major index \<open>k\<close> is the cell \<open>(k mod width, k div width)\<close>.
\<close>

definition next_generation :: "Grid \<Rightarrow> bool \<Rightarrow> Grid" where
  "next_generation g toroidal =
     \<lparr>theGrid =
        map (\<lambda>k. next_cell (theGrid g ! k)
                    (count_neighbours g (int k mod num_columns g) (int k div num_columns g) toroidal))
          [0..<length (theGrid g)],
      num_columns = num_columns g, num_rows = num_rows g\<rparr>"

text \<open>The rule applied to the cell with row-major index \<open>k\<close>.\<close>

definition rule_at :: "Grid \<Rightarrow> bool \<Rightarrow> nat \<Rightarrow> Cell" where
  "rule_at g toroidal k =
     next_cell (theGrid g ! k)
       (count_neighbours g (int k mod num_columns g) (int k div num_columns g) toroidal)"

text \<open>
  The glider scenario: a World is built from a grid, stepped once, and its state read.
  The four phases of the glider in their 3x3 boxes, and what it is for a 3x3 grid on
  the torus to show one of them, shifted.
\<close>

definition step_once :: "error + Grid \<Rightarrow> bool \<Rightarrow> error + Grid" where
  "step_once start toroidal =
     (case start of
        Inl e \<Rightarrow> Inl e
      | Inr g \<Rightarrow>
          (case World_of g of
             Inl e \<Rightarrow> Inl e
           | Inr w \<Rightarrow> (case step w toroidal of Inl e \<Rightarrow> Inl e | Inr w' \<Rightarrow> Inr (get_state w'))))"

definition alive_cells :: "Grid \<Rightarrow> (int \<times> int) list" where
  "alive_cells g =
     concat (map (\<lambda>y. concat (map (\<lambda>x. if get g (int x) (int y) = Inr ALIVE
                                          then [(int x, int y)] else [])
                                [0..<nat (num_columns g)]))
              [0..<nat (num_rows g)])"

definition glider_cycle :: "(int \<times> int) list list" where
  "glider_cycle =
     [[(1, 0), (2, 1), (0, 2), (1, 2), (2, 2)],
      [(0, 0), (2, 0), (1, 1), (2, 1), (1, 2)],
      [(2, 0), (0, 1), (2, 1), (1, 2), (2, 2)],
      [(0, 0), (1, 1), (2, 1), (0, 2), (1, 2)]]"

definition is_glider_phase :: "Grid \<Rightarrow> bool" where
  "is_glider_phase g \<longleftrightarrow>
     num_columns g = 3 \<and> num_rows g = 3 \<and>
     list_ex (\<lambda>phase. list_ex (\<lambda>dx. list_ex (\<lambda>dy.
        set (alive_cells g) = set (map (\<lambda>(x, y). ((x + dx) mod 3, (y + dy) mod 3)) phase))
        [0, 1, 2]) [0, 1, 2]) glider_cycle"

section \<open>Merging, with the objects in a store\<close>

text \<open>
  \<^verbatim>\<open>void merge(Grid other, int x0, int y0, bool alive_only = false);\<close> (grid.h): the
  pattern is a parameter passed by value.  To say what a call does to the caller's
  objects, the grids live in a store, a list indexed by address.  A call
  \<^verbatim>\<open>g.merge(p, x0, y0, alive_only)\<close> with \<open>g\<close> at address \<open>a\<close> and \<open>p\<close> at address
  \<open>b\<close> copies \<open>p\<close> into a new object, the parameter \<^verbatim>\<open>other\<close>, runs the body with
  \<^verbatim>\<open>this\<close> = \<open>a\<close>, and destroys the parameter.
\<close>

type_synonym store = "Grid list"

text \<open>
  Modelled from the spec: the body of \<^verbatim>\<open>merge\<close> (grid.cpp) is missing.  It overlays
  the cells of \<^verbatim>\<open>other\<close> onto this grid with the origin of \<^verbatim>\<open>other\<close> at \<open>(x0, y0)\<close>;
  what lands outside this grid is clipped; with \<open>alive_only\<close> only the ALIVE cells
  of \<^verbatim>\<open>other\<close> are written.
\<close>

function merge_row ::
  "nat \<Rightarrow> nat \<Rightarrow> int \<Rightarrow> int \<Rightarrow> bool \<Rightarrow> int \<Rightarrow> int \<Rightarrow> int \<Rightarrow> store \<Rightarrow> error + store" where
  "merge_row this other x0 y0 alive_only width y x st =
     (if x < width
      then (if in_bounds (st ! this) (x0 + x) (y0 + y)
            then (case get (st ! other) x y of
                    Inl e \<Rightarrow> Inl e
                  | Inr c \<Rightarrow>
                      if \<not> alive_only \<or> c = ALIVE
                      then (case set_cell (st ! this) (x0 + x) (y0 + y) c of
                              Inl e \<Rightarrow> Inl e
                            | Inr g' \<Rightarrow>
                                merge_row this other x0 y0 alive_only width y (x + 1)
                                  (st[this := g']))
                      else merge_row this other x0 y0 alive_only width y (x + 1) st)
            else merge_row this other x0 y0 alive_only width y (x + 1) st)
      else Inr st)"
  by pat_completeness auto
termination
  by (relation "measure (\<lambda>(this, other, x0, y0, alive_only, width, y, x, st). nat (width - x))")
    auto

declare merge_row.simps [simp del]

function merge_rows ::
  "nat \<Rightarrow> nat \<Rightarrow> int \<Rightarrow> int \<Rightarrow> bool \<Rightarrow> int \<Rightarrow> int \<Rightarrow> int \<Rightarrow> store \<Rightarrow> error + store" where
  "merge_rows this other x0 y0 alive_only width height y st =
     (if y < height
      then (case merge_row this other x0 y0 alive_only width y 0 st of
              Inl e \<Rightarrow> Inl e
            | Inr st' \<Rightarrow> merge_rows this other x0 y0 alive_only width height (y + 1) st')
      else Inr st)"
  by pat_completeness auto
termination
  by (relation "measure (\<lambda>(this, other, x0, y0, alive_only, width, height, y, st).
                  nat (height - y))") auto

declare merge_rows.simps [simp del]

definition merge :: "nat \<Rightarrow> nat \<Rightarrow> int \<Rightarrow> int \<Rightarrow> bool \<Rightarrow> store \<Rightarrow> error + store" where
  "merge this other x0 y0 alive_only st =
     merge_rows this other x0 y0 alive_only
       (get_width (st ! other)) (get_height (st ! other)) 0 st"

definition call_merge :: "store \<Rightarrow> nat \<Rightarrow> nat \<Rightarrow> int \<Rightarrow> int \<Rightarrow> bool \<Rightarrow> error + store" where
  "call_merge st a b x0 y0 alive_only =
     (let other = length st; st1 = st @ [st ! b]
      in case merge a other x0 y0 alive_only st1 of
           Inl e \<Rightarrow> Inl e
         | Inr st2 \<Rightarrow> Inr (take (length st) st2))"

section \<open>Lemmas about the grid and the text format\<close>

lemma set_cell_dims:
  "set_cell g x y c = Inr g' \<Longrightarrow>
     num_columns g' = num_columns g \<and> num_rows g' = num_rows g \<and>
     length (theGrid g') = length (theGrid g)"
  by (auto simp: set_cell_def split: if_splits)

lemma set_cell_legal:
  "set_cell g x y c = Inr g' \<Longrightarrow> legal_cells g \<Longrightarrow> c = ALIVE \<or> c = DEAD \<Longrightarrow> legal_cells g'"
  by (auto simp: set_cell_def legal_cells_def list_all_iff split: if_splits
      dest!: set_update_subset_insert [THEN subsetD])

lemma stream_get_cases:
  "stream_get s x = (s', x') \<Longrightarrow>
     (good s \<and> pending s \<noteq> [] \<and> x' = hd (pending s) \<and> s' = s\<lparr>pending := tl (pending s)\<rparr>) \<or>
     (\<not> good s' \<and> x' = x)"
  by (auto simp: stream_get_def good_def split: if_splits list.splits)

lemma load_ascii_row_legal:
  "load_ascii_row width i j s x g = Inr (s', x', g') \<Longrightarrow> legal_cells g \<Longrightarrow> legal_cells g'"
proof (induction width i j s x g rule: load_ascii_row.induct)
  case (1 width i j inFile x gridReturned)
  show ?case
  proof (cases "j < width")
    case False
    with "1.prems" show ?thesis by (simp add: load_ascii_row.simps)
  next
    case True
    obtain s1 x1 where sg: "stream_get inFile x = (s1, x1)" by (cases "stream_get inFile x")
    from True sg "1.prems"(1) have ok: "x1 = CHR '' '' \<or> x1 = CHR ''#''"
      by (subst (asm) load_ascii_row.simps) (auto split: if_splits)
    from True sg "1.prems"(1) ok obtain g1 where
      st: "set_cell gridReturned j i x1 = Inr g1" and
      rec: "load_ascii_row width i (j + 1) s1 x1 g1 = Inr (s', x', g')"
      by (subst (asm) load_ascii_row.simps) (auto split: if_splits sum.splits)
    have "legal_cells g1"
      using set_cell_legal [OF st "1.prems"(2)] ok by (auto simp: ALIVE_def DEAD_def)
    with "1.IH" True sg ok st rec show ?thesis by auto
  qed
qed

lemma load_ascii_rows_legal:
  "load_ascii_rows width height i s x g = Inr (s', x', g') \<Longrightarrow> legal_cells g \<Longrightarrow> legal_cells g'"
proof (induction width height i s x g rule: load_ascii_rows.induct)
  case (1 width height i inFile x gridReturned)
  show ?case
  proof (cases "i < height")
    case False
    with "1.prems" show ?thesis by (simp add: load_ascii_rows.simps)
  next
    case True
    from True "1.prems"(1) obtain s1 x1 g1 where
      row: "load_ascii_row width i 0 inFile x gridReturned = Inr (s1, x1, g1)"
      by (subst (asm) load_ascii_rows.simps) (auto split: sum.splits)
    obtain s2 x2 where sg: "stream_get s1 x1 = (s2, x2)" by (cases "stream_get s1 x1")
    from True "1.prems"(1) row sg have nl: "x2 = CHR 0x0A" and
      rec: "load_ascii_rows width height (i + 1) s2 x2 g1 = Inr (s', x', g')"
      by (subst (asm) load_ascii_rows.simps, auto split: if_splits)+
    have "legal_cells g1" using load_ascii_row_legal [OF row "1.prems"(2)] .
    with "1.IH" [OF True row refl refl sg [symmetric]] nl rec show ?thesis by auto
  qed
qed

lemma Grid_wh_legal: "Grid_wh w h = Inr g \<Longrightarrow> legal_cells g"
  by (auto simp: Grid_wh_def legal_cells_def list_all_iff split: if_splits)

lemma load_ascii_legal:
  "load_ascii w0 h0 x0 fs path = Inr g \<Longrightarrow> legal_cells g"
  unfolding load_ascii_def
  by (auto split: option.splits prod.splits if_splits sum.splits
      dest: Grid_wh_legal load_ascii_rows_legal)

lemma row_fits:
  assumes "grid_ok g" "num_columns g = int W" "num_rows g = int H" "I < H"
  shows "I * W + W \<le> length (theGrid g)"
proof -
  from assms have len: "length (theGrid g) = W * H"
    by (simp add: grid_ok_def flip: of_nat_mult)
  have "(I + 1) * W \<le> H * W" using assms(4) by (intro mult_le_mono1) simp
  then show ?thesis using len by (simp add: algebra_simps)
qed

lemma length_row_cells:
  assumes "grid_ok g" "num_columns g = int W" "num_rows g = int H" "I < H"
  shows "length (row_cells g I) = W"
  using row_fits [OF assms] assms(2) by (simp add: row_cells_def)

lemma row_cells_nth:
  assumes "grid_ok g" "num_columns g = int W" "num_rows g = int H" "I < H" "J < W"
  shows "row_cells g I ! J = theGrid g ! (I * W + J)"
  using row_fits [OF assms(1-4)] assms(2,5) by (simp add: row_cells_def)

lemma get_in_range:
  assumes "grid_ok g" "num_columns g = int W" "num_rows g = int H" "I < H" "J < W"
  shows "get g (int J) (int I) = Inr (theGrid g ! (I * W + J))"
proof -
  have "nat (int I * int W + int J) = I * W + J"
    by (simp add: nat_add_distrib nat_mult_distrib)
  with assms show ?thesis by (simp add: get_def in_bounds_def get_index_def)
qed

lemma save_ascii_row_eq:
  assumes "grid_ok g" "num_columns g = int W" "num_rows g = int H" "I < H" "J \<le> W"
  shows "save_ascii_row g (int I) (int J) out = Inr (out @ drop J (row_cells g I))"
  using assms(5)
proof (induction "W - J" arbitrary: J out)
  case 0
  then have "J = W" by simp
  then show ?case
    using length_row_cells [OF assms(1-4)] assms(2)
    by (subst save_ascii_row.simps) (simp add: get_width_def)
next
  case (Suc n)
  then have lt: "J < W" by simp
  have step: "drop J (row_cells g I) = theGrid g ! (I * W + J) # drop (Suc J) (row_cells g I)"
    using length_row_cells [OF assms(1-4)] row_cells_nth [OF assms(1-4) lt] lt
    by (metis Cons_nth_drop_Suc)
  have IH: "save_ascii_row g (int I) (int (Suc J)) (out @ [theGrid g ! (I * W + J)]) =
            Inr ((out @ [theGrid g ! (I * W + J)]) @ drop (Suc J) (row_cells g I))"
    using Suc lt by (intro Suc.hyps(1)) simp_all
  have "int J + 1 = int (Suc J)" by simp
  then show ?case
    using lt assms(2) get_in_range [OF assms(1-4) lt] IH step
    by (subst save_ascii_row.simps) (simp add: get_width_def add.commute)
qed

lemma save_ascii_rows_eq:
  assumes "grid_ok g" "num_columns g = int W" "num_rows g = int H" "I \<le> H"
  shows "save_ascii_rows g (int I) out =
         Inr (out @ concat (map (\<lambda>i. row_cells g i @ [CHR 0x0A]) [I..<H]))"
  using assms(4)
proof (induction "H - I" arbitrary: I out)
  case 0
  then have "I = H" by simp
  then show ?case using assms(3) by (subst save_ascii_rows.simps) (simp add: get_height_def)
next
  case (Suc n)
  then have lt: "I < H" by simp
  have row: "save_ascii_row g (int I) 0 out = Inr (out @ row_cells g I)"
    using save_ascii_row_eq [OF assms(1-3) lt, of 0 out] by simp
  have IH: "save_ascii_rows g (int (Suc I)) ((out @ row_cells g I) @ [CHR 0x0A]) =
            Inr (((out @ row_cells g I) @ [CHR 0x0A]) @
                 concat (map (\<lambda>i. row_cells g i @ [CHR 0x0A]) [Suc I..<H]))"
    using Suc lt by (intro Suc.hyps(1)) simp_all
  have "int I + 1 = int (Suc I)" by simp
  then show ?case
    using lt assms(3) row IH
    by (subst save_ascii_rows.simps) (simp add: get_height_def upt_conv_Cons add.commute)
qed

lemma save_ascii_eq:
  assumes "grid_ok g" "fs path \<noteq> Locked"
  shows "save_ascii fs path g = Inr (fs(path := Data (ascii_text g)))"
proof -
  from assms(1) obtain W H where wh: "num_columns g = int W" "num_rows g = int H"
    by (metis grid_ok_def nonneg_int_cases)
  show ?thesis
    using save_ascii_rows_eq [OF assms(1) wh, of 0] assms(2) wh
    by (simp add: save_ascii_def ascii_text_def get_width_def get_height_def)
qed

lemma digit_char_props:
  assumes "d < 10"
  shows "digit_val (digit_char d) = int d" and "isdigit (digit_char d)"
proof -
  from assms have "d \<in> {0, 1, 2, 3, 4, 5, 6, 7, 8, 9}" by auto
  then show "digit_val (digit_char d) = int d" and "isdigit (digit_char d)"
    by (auto simp: digit_val_def digit_char_def isdigit_def)
qed

lemma isdigit_not_other:
  "isdigit c \<Longrightarrow> \<not> isspace c \<and> c \<noteq> CHR ''-'' \<and> c \<noteq> CHR ''+''"
  by (auto simp: isdigit_def isspace_def)

lemma show_nat_isdigit: "c \<in> set (show_nat n) \<Longrightarrow> isdigit c"
proof (induction n rule: show_nat.induct)
  case (1 n)
  then show ?case
    by (subst (asm) (2) show_nat.simps) (auto simp: digit_char_props split: if_splits)
qed

lemma show_nat_nonempty: "show_nat n \<noteq> []"
  by (subst show_nat.simps) simp

lemma digits_value_snoc: "digits_value (ds @ [c]) = 10 * digits_value ds + digit_val c"
  by (simp add: digits_value_def)

lemma digits_value_show_nat: "digits_value (show_nat n) = int n"
proof (induction n rule: show_nat.induct)
  case (1 n)
  show ?case
  proof (cases "n < 10")
    case True
    then show ?thesis
      by (subst show_nat.simps) (simp add: digits_value_def digit_char_props)
  next
    case False
    with 1 have "digits_value (show_nat (n div 10)) = int (n div 10)" by simp
    moreover have "10 * int (n div 10) + int (n mod 10) = int n"
      by presburger
    ultimately show ?thesis using False
      by (subst show_nat.simps) (simp add: digits_value_snoc digit_char_props)
  qed
qed

lemma extract_int_show_nat:
  assumes "good s" "pending s = ws @ show_nat n @ c # rest"
    and "\<forall>a\<in>set ws. isspace a" "\<not> isdigit c" "int n \<le> INT_MAX"
  shows "extract_int s v = (\<lparr>pending = c # rest, eofbit = False, failbit = False\<rparr>, int n)"
proof -
  obtain d ds where sn: "show_nat n = d # ds"
    using show_nat_nonempty [of n] by (cases "show_nat n") auto
  have dig: "\<And>a. a \<in> set (d # ds) \<Longrightarrow> isdigit a"
    using show_nat_isdigit [of _ n] sn by simp
  have d: "isdigit d" using dig by simp
  have r: "dropWhile isspace (pending s) = d # ds @ c # rest"
    using assms(2,3) sn isdigit_not_other [OF d] by (simp add: dropWhile_append2)
  have tw: "takeWhile isdigit (d # ds @ c # rest) = d # ds"
    using takeWhile_append2 [of "d # ds" isdigit "c # rest"] dig assms(4) by simp
  have dw: "dropWhile isdigit (d # ds @ c # rest) = c # rest"
    using dropWhile_append2 [of "d # ds" isdigit "c # rest"] dig assms(4) by simp
  have val: "digits_value (d # ds) = int n"
    using digits_value_show_nat [of n] sn by simp
  have "0 \<le> int n" by simp
  then have lo: "\<not> int n < INT_MIN" by (simp add: INT_MIN_def)
  have sc: "scan_int (d # ds @ c # rest) = (c # rest, False, int n)"
    using assms(5) tw dw val lo isdigit_not_other [OF d]
    by (simp add: scan_int_def Let_def)
  show ?thesis
    using assms(1) r sc by (simp add: extract_int_def)
qed

lemma load_ascii_row_eq:
  assumes "num_columns g = int W" "num_rows g = int H" "length (theGrid g) = W * H" "I < H"
    and "good s" "pending s = cs @ rest" "length cs = W - J" "J \<le> W"
    and "\<forall>c\<in>set cs. c = CHR '' '' \<or> c = CHR ''#''"
  shows "\<exists>x'. load_ascii_row (int W) (int I) (int J) s x g =
           Inr (s\<lparr>pending := rest\<rparr>, x',
                g\<lparr>theGrid := take (I * W + J) (theGrid g) @ cs @
                               drop (I * W + J + length cs) (theGrid g)\<rparr>)"
  using assms
proof (induction cs arbitrary: J s x g)
  case Nil
  then have "J = W" by simp
  with Nil show ?case
    by (subst load_ascii_row.simps) simp
next
  case (Cons c cs)
  then have lt: "J < W" by simp
  let ?k = "I * W + J"
  have fits: "?k < length (theGrid g)"
  proof -
    have "(I + 1) * W \<le> H * W" using Cons.prems(4) by (intro mult_le_mono1) simp
    then show ?thesis using lt Cons.prems(3) by (simp add: algebra_simps)
  qed
  let ?s1 = "s\<lparr>pending := cs @ rest\<rparr>"
  let ?g1 = "g\<lparr>theGrid := (theGrid g)[?k := c]\<rparr>"
  have sg: "stream_get s x = (?s1, c)"
    using Cons.prems(5,6) by (simp add: stream_get_def)
  have nk: "nat (int I * int W + int J) = ?k"
    by (simp add: nat_add_distrib nat_mult_distrib)
  have st: "set_cell g (int J) (int I) c = Inr ?g1"
    using Cons.prems(1,2,4) lt nk by (simp add: set_cell_def in_bounds_def get_index_def)
  have ok: "c = CHR '' '' \<or> c = CHR ''#''" using Cons.prems(9) by simp
  have "\<exists>x'. load_ascii_row (int W) (int I) (int (Suc J)) ?s1 c ?g1 =
           Inr (?s1\<lparr>pending := rest\<rparr>, x',
                ?g1\<lparr>theGrid := take (I * W + Suc J) (theGrid ?g1) @ cs @
                               drop (I * W + Suc J + length cs) (theGrid ?g1)\<rparr>)"
    using Cons.prems lt by (intro Cons.IH) (simp_all add: good_def)
  then obtain x' where rec: "load_ascii_row (int W) (int I) (int (Suc J)) ?s1 c ?g1 =
           Inr (?s1\<lparr>pending := rest\<rparr>, x',
                ?g1\<lparr>theGrid := take (I * W + Suc J) (theGrid ?g1) @ cs @
                               drop (I * W + Suc J + length cs) (theGrid ?g1)\<rparr>)" ..
  have tk: "take (I * W + Suc J) ((theGrid g)[?k := c]) = take ?k (theGrid g) @ [c]"
    using fits by (simp add: take_Suc_conv_app_nth)
  have "load_ascii_row (int W) (int I) (int J) s x g =
        load_ascii_row (int W) (int I) (int (Suc J)) ?s1 c ?g1"
    using lt sg st ok by (subst load_ascii_row.simps) (auto simp: add.commute)
  with rec tk show ?case by auto
qed

lemma load_ascii_rows_eq:
  assumes "grid_ok G" "num_columns G = int W" "num_rows G = int H"
    and "\<forall>c\<in>set (theGrid G). c = CHR '' '' \<or> c = CHR ''#''"
    and "num_columns g = int W" "num_rows g = int H" "length (theGrid g) = W * H"
    and "take (I * W) (theGrid g) = take (I * W) (theGrid G)" "I \<le> H"
    and "good s"
    and "pending s = concat (map (\<lambda>i. row_cells G i @ [CHR 0x0A]) [I..<H]) @ rest"
  shows "\<exists>x'. load_ascii_rows (int W) (int H) (int I) s x g = Inr (s\<lparr>pending := rest\<rparr>, x', G)"
  using assms(5-)
proof (induction "H - I" arbitrary: I s x g)
  case 0
  then have eq: "I = H" by simp
  have len: "length (theGrid G) = W * H"
    using assms(1-3) by (simp add: grid_ok_def flip: of_nat_mult)
  have "theGrid g = theGrid G"
    using "0.prems"(3,4) len eq by (simp add: mult.commute)
  with "0.prems"(1,2) assms(2,3) have "g = G" by simp
  with eq "0.prems"(7) show ?case
    by (subst load_ascii_rows.simps) simp
next
  case (Suc n)
  then have lt: "I < H" by simp
  let ?rest1 = "CHR 0x0A # concat (map (\<lambda>i. row_cells G i @ [CHR 0x0A]) [Suc I..<H]) @ rest"
  have pend: "pending s = row_cells G I @ ?rest1"
    using Suc.prems(7) lt by (simp add: upt_conv_Cons)
  have lrow: "length (row_cells G I) = W - 0"
    using length_row_cells [OF assms(1-3) lt] by simp
  have legal: "\<forall>c\<in>set (row_cells G I). c = CHR '' '' \<or> c = CHR ''#''"
    using assms(4) by (auto simp: row_cells_def dest: in_set_takeD in_set_dropD)
  let ?g1 = "g\<lparr>theGrid := take (I * W + 0) (theGrid g) @ row_cells G I @
                           drop (I * W + 0 + length (row_cells G I)) (theGrid g)\<rparr>"
  let ?s1 = "s\<lparr>pending := ?rest1\<rparr>"
  from load_ascii_row_eq [OF Suc.prems(1,2,3) lt Suc.prems(6) pend lrow _ legal, of x]
  obtain x1 where row: "load_ascii_row (int W) (int I) 0 s x g = Inr (?s1, x1, ?g1)"
    by auto
  let ?s2 = "?s1\<lparr>pending := concat (map (\<lambda>i. row_cells G i @ [CHR 0x0A]) [Suc I..<H]) @ rest\<rparr>"
  have sg: "stream_get ?s1 x1 = (?s2, CHR 0x0A)"
    using Suc.prems(6) by (simp add: stream_get_def good_def)
  have fits: "I * W + W \<le> length (theGrid g)"
  proof -
    have "(I + 1) * W \<le> H * W" using lt by (intro mult_le_mono1) simp
    then show ?thesis using Suc.prems(3) by (simp add: algebra_simps)
  qed
  have tk: "take (Suc I * W) (theGrid ?g1) = take (Suc I * W) (theGrid G)"
  proof -
    have "take (Suc I * W) (theGrid ?g1) = take (I * W) (theGrid g) @ row_cells G I"
      using lrow fits by simp
    also have "\<dots> = take (I * W) (theGrid G) @ take W (drop (I * W) (theGrid G))"
      using Suc.prems(4) assms(2) by (simp add: row_cells_def)
    also have "\<dots> = take (I * W + W) (theGrid G)"
      by (simp add: take_add)
    finally show ?thesis by (simp add: add.commute)
  qed
  have "\<exists>x'. load_ascii_rows (int W) (int H) (int (Suc I)) ?s2 (CHR 0x0A) ?g1 =
          Inr (?s2\<lparr>pending := rest\<rparr>, x', G)"
    using Suc.hyps(2) Suc.prems(1,2,3,6) lt lrow fits tk
    by (intro Suc.hyps(1)) (simp_all add: good_def)
  then obtain x' where rec: "load_ascii_rows (int W) (int H) (int (Suc I)) ?s2 (CHR 0x0A) ?g1 =
          Inr (?s2\<lparr>pending := rest\<rparr>, x', G)" ..
  have "load_ascii_rows (int W) (int H) (int I) s x g =
        load_ascii_rows (int W) (int H) (int (Suc I)) ?s2 (CHR 0x0A) ?g1"
    using lt row sg by (subst load_ascii_rows.simps) (simp add: add.commute)
  with rec show ?case by auto
qed

lemma load_ascii_text:
  assumes "grid_ok G" "legal_cells G" "num_columns G \<le> INT_MAX" "num_rows G \<le> INT_MAX"
    and "fs path = Data (ascii_text G)"
  shows "load_ascii w0 h0 x0 fs path = Inr G"
proof -
  from assms(1) obtain W H where wh: "num_columns G = int W" "num_rows G = int H"
    by (metis grid_ok_def nonneg_int_cases)
  let ?body = "concat (map (\<lambda>i. row_cells G i @ [CHR 0x0A]) [0..<H])"
  let ?s0 = "\<lparr>pending = ascii_text G, eofbit = False, failbit = False\<rparr>"
  let ?s1 = "\<lparr>pending = CHR '' '' # show_nat H @ CHR 0x0A # ?body, eofbit = False, failbit = False\<rparr>"
  let ?s2 = "\<lparr>pending = CHR 0x0A # ?body, eofbit = False, failbit = False\<rparr>"
  let ?s3 = "\<lparr>pending = ?body @ [], eofbit = False, failbit = False\<rparr>"
  have op: "open_in fs path = Some ?s0" using assms(5) by (simp add: open_in_def)
  have e1: "extract_int ?s0 w0 = (?s1, int W)"
    using assms(3) wh
    by (intro extract_int_show_nat [where ws = "[]"])
       (simp_all add: good_def ascii_text_def show_int_def isdigit_def)
  have e2: "extract_int ?s1 h0 = (?s2, int H)"
    using assms(4) wh
    by (intro extract_int_show_nat [where ws = "[CHR '' '']"])
       (simp_all add: good_def isdigit_def isspace_def)
  have g3: "stream_get ?s2 x0 = (?s3, CHR 0x0A)"
    by (simp add: stream_get_def good_def)
  let ?g0 = "\<lparr>theGrid = replicate (nat (int W * int H)) DEAD, num_columns = int W, num_rows = int H\<rparr>"
  have gr: "Grid_wh (int W) (int H) = Inr ?g0" by (simp add: Grid_wh_def)
  have legal: "\<forall>c\<in>set (theGrid G). c = CHR '' '' \<or> c = CHR ''#''"
    using assms(2) by (auto simp: legal_cells_def list_all_iff ALIVE_def DEAD_def)
  have "\<exists>x'. load_ascii_rows (int W) (int H) (int 0) ?s3 (CHR 0x0A) ?g0 =
          Inr (?s3\<lparr>pending := []\<rparr>, x', G)"
    by (rule load_ascii_rows_eq [OF assms(1) wh legal])
       (simp_all add: good_def nat_mult_distrib)
  then obtain x' where rows: "load_ascii_rows (int W) (int H) 0 ?s3 (CHR 0x0A) ?g0 =
          Inr (?s3\<lparr>pending := []\<rparr>, x', G)" by auto
  show ?thesis
    unfolding load_ascii_def using op e1 e2 g3 gr rows by (simp add: good_def)
qed

lemma load_ascii_row_bad:
  assumes "num_columns g = int W" "num_rows g = int H" "I < H"
    and "good s" "J + k < W" "k < length (pending s)"
    and "pending s ! k \<noteq> CHR '' ''" "pending s ! k \<noteq> CHR ''#''"
  shows "load_ascii_row (int W) (int I) (int J) s x g = Inl BadCellCharacter"
  using assms
proof (induction k arbitrary: J s x g)
  case 0
  then obtain c cs where p: "pending s = c # cs" by (cases "pending s") auto
  with 0 have sg: "stream_get s x = (s\<lparr>pending := cs\<rparr>, c)" and "c \<noteq> CHR '' ''" "c \<noteq> CHR ''#''"
    by (simp_all add: stream_get_def)
  with 0 show ?case by (subst load_ascii_row.simps) simp
next
  case (Suc k)
  then obtain c cs where p: "pending s = c # cs" by (cases "pending s") auto
  let ?s1 = "s\<lparr>pending := cs\<rparr>"
  have sg: "stream_get s x = (?s1, c)" using Suc.prems(4) p by (simp add: stream_get_def)
  show ?case
  proof (cases "c \<noteq> CHR '' '' \<and> c \<noteq> CHR ''#''")
    case True
    with sg Suc.prems(5) show ?thesis by (subst load_ascii_row.simps) simp
  next
    case False
    let ?g1 = "g\<lparr>theGrid := (theGrid g)[nat (get_index g (int J) (int I)) := c]\<rparr>"
    have st: "set_cell g (int J) (int I) c = Inr ?g1"
      using Suc.prems(1,2,3,5) by (simp add: set_cell_def in_bounds_def)
    have rec: "load_ascii_row (int W) (int I) (int (Suc J)) ?s1 c ?g1 = Inl BadCellCharacter"
      using Suc.prems p by (intro Suc.IH) (simp_all add: good_def)
    from False sg st rec Suc.prems(5) show ?thesis
      by (subst load_ascii_row.simps) (auto simp: add.commute)
  qed
qed

lemma load_ascii_rows_bad:
  assumes "num_columns g = int W" "num_rows g = int H" "length (theGrid g) = W * H"
    and "good s" "I0 + d < H" "J < W" "d * (W + 1) + J < length (pending s)"
    and "pending s ! (d * (W + 1) + J) \<noteq> CHR '' ''"
    and "pending s ! (d * (W + 1) + J) \<noteq> CHR ''#''"
  shows "\<exists>e. load_ascii_rows (int W) (int H) (int I0) s x g = Inl e \<and>
             kind_of e = MalformedContent"
  using assms
proof (induction d arbitrary: I0 s x g)
  case 0
  have "load_ascii_row (int W) (int I0) (int 0) s x g = Inl BadCellCharacter"
    using 0 by (intro load_ascii_row_bad [where k = J and H = H]) simp_all
  with 0 show ?case by (subst load_ascii_rows.simps) simp
next
  case (Suc d)
  have lt: "I0 < H" using Suc.prems(5) by simp
  have long: "W + 1 \<le> length (pending s)" using Suc.prems(7) by simp
  show ?case
  proof (cases "\<forall>c\<in>set (take W (pending s)). c = CHR '' '' \<or> c = CHR ''#''")
    case False
    then obtain k where k: "k < W" "k < length (pending s)"
      "pending s ! k \<noteq> CHR '' ''" "pending s ! k \<noteq> CHR ''#''"
      by (auto simp: in_set_conv_nth)
    have "load_ascii_row (int W) (int I0) (int 0) s x g = Inl BadCellCharacter"
      using Suc.prems(1,2,4) lt k by (intro load_ascii_row_bad [where k = k and H = H]) simp_all
    with lt show ?thesis by (subst load_ascii_rows.simps) simp
  next
    case True
    let ?cs = "take W (pending s)"
    let ?g1 = "g\<lparr>theGrid := take (I0 * W + 0) (theGrid g) @ ?cs @
                           drop (I0 * W + 0 + length ?cs) (theGrid g)\<rparr>"
    let ?s1 = "s\<lparr>pending := drop W (pending s)\<rparr>"
    have lcs: "length ?cs = W - 0" using long by simp
    from load_ascii_row_eq [OF Suc.prems(1,2,3) lt Suc.prems(4) _ lcs _ True, of "drop W (pending s)" x]
    obtain x1 where row: "load_ascii_row (int W) (int I0) 0 s x g = Inr (?s1, x1, ?g1)"
      by auto
    obtain c where c: "drop W (pending s) = c # drop (Suc W) (pending s)"
      using long by (metis Cons_nth_drop_Suc Suc_eq_plus1 Suc_le_lessD)
    let ?s2 = "s\<lparr>pending := drop (Suc W) (pending s)\<rparr>"
    have sg: "stream_get ?s1 x1 = (?s2, c)"
      using Suc.prems(4) c by (simp add: stream_get_def good_def)
    show ?thesis
    proof (cases "c = CHR 0x0A")
      case False
      with lt row sg show ?thesis by (subst load_ascii_rows.simps) simp
    next
      case nl: True
      have fits: "I0 * W + W \<le> length (theGrid g)"
      proof -
        have "(I0 + 1) * W \<le> H * W" using lt by (intro mult_le_mono1) simp
        then show ?thesis using Suc.prems(3) by (simp add: algebra_simps)
      qed
      define q where "q = d * (W + 1) + J"
      have idx: "Suc d * (W + 1) + J = Suc W + q" by (simp add: q_def)
      have q1: "q < length (pending ?s2)"
        using Suc.prems(7) unfolding idx by simp
      have q2: "pending ?s2 ! q \<noteq> CHR '' ''" "pending ?s2 ! q \<noteq> CHR ''#''"
        using Suc.prems(8,9) long unfolding idx by simp_all
      have d1: "num_columns ?g1 = int W" "num_rows ?g1 = int H" "length (theGrid ?g1) = W * H"
        using Suc.prems(1,2,3) long fits by simp_all
      have d2: "good ?s2" "Suc I0 + d < H"
        using Suc.prems(4,5) by (simp_all add: good_def)
      have "\<exists>e. load_ascii_rows (int W) (int H) (int (Suc I0)) ?s2 c ?g1 = Inl e \<and>
                 kind_of e = MalformedContent"
        using q1 q2 unfolding q_def by (rule Suc.IH [OF d1 d2 Suc.prems(6)])
      moreover have "load_ascii_rows (int W) (int H) (int I0) s x g =
          load_ascii_rows (int W) (int H) (int (Suc I0)) ?s2 c ?g1"
        using lt row sg nl by (subst load_ascii_rows.simps) (simp add: add.commute)
      ultimately show ?thesis by simp
    qed
  qed
qed

lemma extract_int_ok:
  assumes "extract_int s v = (s', r)" "\<not> failbit s'"
  shows "extract_int s v' = (s', r) \<and> good s \<and> eofbit s' = (pending s' = [])"
proof -
  have g: "good s" using assms by (cases "good s") (auto simp: extract_int_def)
  obtain c cs where d: "dropWhile isspace (pending s) = c # cs"
    using assms g by (cases "dropWhile isspace (pending s)") (auto simp: extract_int_def)
  show ?thesis
    using assms g d by (auto simp: extract_int_def split: prod.splits)
qed

lemma load_ascii_row_dims:
  "load_ascii_row width i j s x g = Inr (s', x', g') \<Longrightarrow>
     num_columns g' = num_columns g \<and> num_rows g' = num_rows g \<and>
     length (theGrid g') = length (theGrid g)"
proof (induction width i j s x g rule: load_ascii_row.induct)
  case (1 width i j inFile x gridReturned)
  show ?case
  proof (cases "j < width")
    case False
    with "1.prems" show ?thesis by (simp add: load_ascii_row.simps)
  next
    case True
    obtain s1 x1 where sg: "stream_get inFile x = (s1, x1)" by (cases "stream_get inFile x")
    from True sg "1.prems"(1) have ok: "x1 = CHR '' '' \<or> x1 = CHR ''#''"
      by (subst (asm) load_ascii_row.simps) (auto split: if_splits)
    from True sg "1.prems"(1) ok obtain g1 where
      st: "set_cell gridReturned j i x1 = Inr g1" and
      rec: "load_ascii_row width i (j + 1) s1 x1 g1 = Inr (s', x', g')"
      by (subst (asm) load_ascii_row.simps) (auto split: if_splits sum.splits)
    from "1.IH" True sg ok st rec set_cell_dims [OF st] show ?thesis by auto
  qed
qed

lemma load_ascii_row_good:
  assumes "load_ascii_row (int W) (int I) (int J) s x g = Inr (s', x', g')" "good s'" "J \<le> W"
  shows "good s \<and> W - J \<le> length (pending s) \<and>
         (\<forall>c\<in>set (take (W - J) (pending s)). c = CHR '' '' \<or> c = CHR ''#'')"
  using assms
proof (induction "W - J" arbitrary: J s x g)
  case 0
  then have "J = W" by simp
  with 0 show ?case by (subst (asm) load_ascii_row.simps) simp
next
  case (Suc n)
  then have lt: "J < W" by simp
  obtain s1 x1 where sg: "stream_get s x = (s1, x1)" by (cases "stream_get s x")
  from lt sg Suc.prems(1) have ok: "x1 = CHR '' '' \<or> x1 = CHR ''#''"
    by (subst (asm) load_ascii_row.simps) (auto split: if_splits)
  from lt sg Suc.prems(1) ok obtain g1 where
    rec: "load_ascii_row (int W) (int I) (int (Suc J)) s1 x1 g1 = Inr (s', x', g')"
    by (subst (asm) load_ascii_row.simps) (auto split: if_splits sum.splits simp: add.commute)
  have n: "n = W - Suc J" using Suc.hyps(2) by simp
  have le: "Suc J \<le> W" using lt by simp
  from Suc.hyps(1) [OF n rec Suc.prems(2) le]
  have g1: "good s1" and l1: "W - Suc J \<le> length (pending s1)"
    and c1: "\<forall>c\<in>set (take (W - Suc J) (pending s1)). c = CHR '' '' \<or> c = CHR ''#''"
    by simp_all
  from stream_get_cases [OF sg] g1
  have gs: "good s" and ne: "pending s \<noteq> []" and hd: "x1 = hd (pending s)"
    and s1: "s1 = s\<lparr>pending := tl (pending s)\<rparr>"
    by auto
  from ne hd s1 have p: "pending s = x1 # pending s1" by (cases "pending s") auto
  have w: "W - J = Suc (W - Suc J)" using lt by simp
  show ?case using gs l1 c1 ok unfolding p w by simp
qed

lemma load_ascii_row_result:
  assumes "load_ascii_row (int W) (int I) (int 0) s x g = Inr (s', x', g')" "good s'"
    and "num_columns g = int W" "num_rows g = int H" "length (theGrid g) = W * H" "I < H"
  shows "good s" "W \<le> length (pending s)" "s' = s\<lparr>pending := drop W (pending s)\<rparr>"
    "g' = g\<lparr>theGrid := take (I * W) (theGrid g) @ take W (pending s) @
                         drop (I * W + W) (theGrid g)\<rparr>"
proof -
  from load_ascii_row_good [OF assms(1,2)]
  have gs: "good s" and l: "W - 0 \<le> length (pending s)"
    and c: "\<forall>c\<in>set (take (W - 0) (pending s)). c = CHR '' '' \<or> c = CHR ''#''"
    by simp_all
  show "good s" by (rule gs)
  show "W \<le> length (pending s)" using l by simp
  have split: "pending s = take (W - 0) (pending s) @ drop W (pending s)" by simp
  have len: "length (take (W - 0) (pending s)) = W - 0" using l by simp
  from load_ascii_row_eq [OF assms(3-6) gs split len _ c, of x] assms(1) l
  show "s' = s\<lparr>pending := drop W (pending s)\<rparr>"
    "g' = g\<lparr>theGrid := take (I * W) (theGrid g) @ take W (pending s) @
                         drop (I * W + W) (theGrid g)\<rparr>"
    by auto
qed

lemma load_ascii_rows_good:
  assumes "load_ascii_rows (int W) (int H) (int I) s x g = Inr (s', x', g')" "good s'"
    and "num_columns g = int W" "num_rows g = int H" "length (theGrid g) = W * H" "I \<le> H"
  shows "good s \<and> num_columns g' = int W \<and> num_rows g' = int H \<and>
         length (theGrid g') = W * H \<and>
         (\<forall>k<I * W. theGrid g' ! k = theGrid g ! k) \<and>
         (\<forall>i j. I \<le> i \<and> i < H \<and> j < W \<longrightarrow>
            (i - I) * (W + 1) + j < length (pending s) \<and>
            theGrid g' ! (i * W + j) = pending s ! ((i - I) * (W + 1) + j))"
  using assms
proof (induction "H - I" arbitrary: I s x g)
  case 0
  then have "I = H" by simp
  with 0 show ?case by (subst (asm) load_ascii_rows.simps) auto
next
  case (Suc n)
  then have lt: "I < H" by simp
  from lt Suc.prems(1) obtain s1 x1 g1 where
    row: "load_ascii_row (int W) (int I) (int 0) s x g = Inr (s1, x1, g1)"
    by (subst (asm) load_ascii_rows.simps) (auto split: sum.splits)
  obtain s2 x2 where sg: "stream_get s1 x1 = (s2, x2)" by (cases "stream_get s1 x1")
  from lt Suc.prems(1) row sg have
    rec: "load_ascii_rows (int W) (int H) (int (Suc I)) s2 x2 g1 = Inr (s', x', g')"
    by (subst (asm) load_ascii_rows.simps) (auto split: if_splits simp: add.commute)
  from load_ascii_row_dims [OF row] Suc.prems(3-5)
  have d1: "num_columns g1 = int W" "num_rows g1 = int H" "length (theGrid g1) = W * H"
    by simp_all
  have n: "n = H - Suc I" using Suc.hyps(2) by simp
  have le: "Suc I \<le> H" using lt by simp
  from Suc.hyps(1) [OF n rec Suc.prems(2) d1 le]
  have g2: "good s2" and dims: "num_columns g' = int W" "num_rows g' = int H"
      "length (theGrid g') = W * H"
    and frame: "\<And>k. k < Suc I * W \<Longrightarrow> theGrid g' ! k = theGrid g1 ! k"
    and later: "\<And>i j. Suc I \<le> i \<Longrightarrow> i < H \<Longrightarrow> j < W \<Longrightarrow>
            (i - Suc I) * (W + 1) + j < length (pending s2) \<and>
            theGrid g' ! (i * W + j) = pending s2 ! ((i - Suc I) * (W + 1) + j)"
    by simp_all
  from stream_get_cases [OF sg] g2
  have gs1: "good s1" and ne: "pending s1 \<noteq> []"
    and s2: "s2 = s1\<lparr>pending := tl (pending s1)\<rparr>"
    by auto
  from load_ascii_row_result [OF row gs1 Suc.prems(3-5) lt]
  have gs: "good s" and l: "W \<le> length (pending s)"
    and s1: "s1 = s\<lparr>pending := drop W (pending s)\<rparr>"
    and g1: "g1 = g\<lparr>theGrid := take (I * W) (theGrid g) @ take W (pending s) @
                         drop (I * W + W) (theGrid g)\<rparr>"
    by simp_all
  have p2: "pending s2 = drop (Suc W) (pending s)"
    using s1 s2 by (simp add: drop_Suc tl_drop)
  have "drop W (pending s) \<noteq> []" using ne s1 by simp
  then have l2: "Suc W \<le> length (pending s)" by (simp add: Suc_le_eq)
  have fits: "I * W + W \<le> length (theGrid g)"
  proof -
    have "(I + 1) * W \<le> H * W" using lt by (intro mult_le_mono1) simp
    then show ?thesis using Suc.prems(5) by (simp add: algebra_simps)
  qed
  have old: "\<And>k. k < I * W \<Longrightarrow> theGrid g' ! k = theGrid g ! k"
  proof -
    fix k assume k: "k < I * W"
    then have "theGrid g' ! k = theGrid g1 ! k" by (intro frame) simp
    also have "\<dots> = theGrid g ! k" using k fits by (simp add: g1 nth_append)
    finally show "theGrid g' ! k = theGrid g ! k" .
  qed
  have cells: "(i - I) * (W + 1) + j < length (pending s) \<and>
            theGrid g' ! (i * W + j) = pending s ! ((i - I) * (W + 1) + j)"
    if i: "I \<le> i" "i < H" and j: "j < W" for i j
  proof (cases "i = I")
    case True
    have "theGrid g' ! (I * W + j) = theGrid g1 ! (I * W + j)" using j by (intro frame) simp
    also have "\<dots> = pending s ! j" using j fits l by (simp add: g1 nth_append)
    finally show ?thesis using True j l by simp
  next
    case False
    with i have gt: "Suc I \<le> i" by simp
    define q where "q = (i - Suc I) * (W + 1) + j"
    from later [OF gt i(2) j] have a: "q < length (pending s2)"
      and b: "theGrid g' ! (i * W + j) = pending s2 ! q"
      by (simp_all add: q_def)
    have e: "(i - I) * (W + 1) + j = Suc W + q"
    proof -
      have "i - I = Suc (i - Suc I)" using gt by simp
      then show ?thesis by (simp add: q_def)
    qed
    have "Suc W + q < length (pending s)" using a p2 by simp
    moreover have "pending s2 ! q = pending s ! (Suc W + q)" using l2 by (simp add: p2)
    ultimately show ?thesis unfolding e using b by simp
  qed
  show ?case using gs dims old cells by blast
qed

lemma load_ascii_reads_cells:
  assumes "fs path = Data chars" "load_ascii width0 height0 x0 fs path = Inr g"
  shows "\<exists>c0 body.
           ascii_header chars = Some (num_columns g, num_rows g, c0 # body) \<and>
           0 \<le> num_columns g \<and> 0 \<le> num_rows g \<and>
           int (length (theGrid g)) = num_columns g * num_rows g \<and>
           (\<forall>i j. int i < num_rows g \<and> int j < num_columns g \<longrightarrow>
              i * (nat (num_columns g) + 1) + j < length body \<and>
              get g (int j) (int i) = Inr (body ! (i * (nat (num_columns g) + 1) + j)))"
proof -
  let ?s0 = "\<lparr>pending = chars, eofbit = False, failbit = False\<rparr>"
  obtain s1 w where e1: "extract_int ?s0 width0 = (s1, w)" by (cases "extract_int ?s0 width0")
  obtain s2 h where e2: "extract_int s1 height0 = (s2, h)" by (cases "extract_int s1 height0")
  obtain s3 x where sg: "stream_get s2 x0 = (s3, x)" by (cases "stream_get s2 x0")
  have op: "open_in fs path = Some ?s0" using assms(1) by (simp add: open_in_def)
  from assms(2) have nn: "0 \<le> w" "0 \<le> h"
    unfolding load_ascii_def op using e1 e2 by (auto split: if_splits)
  then obtain W H where WH: "w = int W" "h = int H" by (metis nonneg_int_cases)
  let ?g0 = "\<lparr>theGrid = replicate (nat (int W * int H)) DEAD, num_columns = int W, num_rows = int H\<rparr>"
  have gr: "Grid_wh (int W) (int H) = Inr ?g0" by (simp add: Grid_wh_def)
  from assms(2) obtain s4 x' where
    rows: "load_ascii_rows (int W) (int H) (int 0) s3 x ?g0 = Inr (s4, x', g)" and g4: "good s4"
    unfolding load_ascii_def op using e1 e2 sg gr WH
    by (auto split: if_splits sum.splits)
  from load_ascii_rows_good [OF rows g4]
  have g3: "good s3" and dims: "num_columns g = int W" "num_rows g = int H"
    and len: "length (theGrid g) = W * H"
    and cells: "\<And>i j. i < H \<Longrightarrow> j < W \<Longrightarrow>
            i * (W + 1) + j < length (pending s3) \<and>
            theGrid g ! (i * W + j) = pending s3 ! (i * (W + 1) + j)"
    by (simp_all add: nat_mult_distrib)
  from stream_get_cases [OF sg] g3
  have g2: "good s2" and ne: "pending s2 \<noteq> []" and s3: "s3 = s2\<lparr>pending := tl (pending s2)\<rparr>"
    by auto
  from ne s3 obtain c0 where p2: "pending s2 = c0 # pending s3" by (cases "pending s2") auto
  from g2 have ok2: "\<not> failbit s2" by (simp add: good_def)
  from extract_int_ok [OF e2 ok2, of 0]
  have e2': "extract_int s1 0 = (s2, h)" and g1: "good s1" by simp_all
  from g1 have ok1: "\<not> failbit s1" by (simp add: good_def)
  from extract_int_ok [OF e1 ok1, of 0] have e1': "extract_int ?s0 0 = (s1, w)" by simp
  have hd: "ascii_header chars = Some (num_columns g, num_rows g, c0 # pending s3)"
    using e1' e2' ok2 p2 dims WH by (simp add: ascii_header_def)
  have "i * (nat (num_columns g) + 1) + j < length (pending s3) \<and>
        get g (int j) (int i) = Inr (pending s3 ! (i * (nat (num_columns g) + 1) + j))"
    if "int i < num_rows g \<and> int j < num_columns g" for i j
  proof -
    from that dims have i: "i < H" and j: "j < W" by simp_all
    have nk: "nat (int i * int W + int j) = i * W + j"
      by (simp add: nat_add_distrib nat_mult_distrib)
    have "get g (int j) (int i) = Inr (theGrid g ! (i * W + j))"
      using i j dims nk by (simp add: get_def in_bounds_def get_index_def)
    with cells [OF i j] dims show ?thesis by simp
  qed
  with hd dims len show ?thesis by (intro exI [of _ c0] exI [of _ "pending s3"]) simp
qed

section \<open>Lemmas about the binary format\<close>

lemma cdiv_nat: "cdiv (int a) (int b) = int (a div b)"
  by (cases "a = 0"; cases "b = 0") (simp_all add: cdiv_def zdiv_int)

lemma cursor_start: "cursor_at W H 0 0 0"
  by (cases "W = 0"; cases "H = 0") (auto simp: cursor_at_def)

lemma cursor_end:
  "cursor_at W H idx column row \<Longrightarrow> \<not> idx < W * H \<Longrightarrow>
     \<not> (column \<le> int W - 1 \<and> row \<le> int H - 1)"
  by (auto simp: cursor_at_def)

lemma cursor_inside:
  assumes "cursor_at W H idx column row" "idx < W * H"
  shows "0 \<le> column" "column < int W" "0 \<le> row" "row < int H"
    "nat (row * int W + column) = idx"
proof -
  from assms have c: "column = int (idx mod W)" and r: "row = int (idx div W)"
    by (auto simp: cursor_at_def)
  from assms(2) have W: "0 < W" by (cases W) auto
  show "0 \<le> column" "0 \<le> row" using c r by simp_all
  show "column < int W" using c W by simp
  have "idx < H * W" using assms(2) by (simp add: mult.commute)
  then have "idx div W < H" by (rule less_mult_imp_div_less)
  then show "row < int H" using r by simp
  have "row * int W + column = int (idx div W * W + idx mod W)"
    unfolding c r by (simp only: of_nat_add of_nat_mult)
  then show "nat (row * int W + column) = idx" by simp
qed

lemma cursor_step:
  assumes "cursor_at W H idx column row" "idx < W * H"
  shows "cursor_at W H (Suc idx) (if column + 1 = int W then 0 else column + 1)
           (if column + 1 = int W then row + 1 else row)"
proof -
  from assms have c: "column = int (idx mod W)" and r: "row = int (idx div W)"
    by (auto simp: cursor_at_def)
  from assms(2) have W: "0 < W" by (cases W) auto
  have eq: "(column + 1 = int W) = (Suc (idx mod W) = W)" using c by auto
  show ?thesis
  proof (cases "Suc idx < W * H")
    case True
    then show ?thesis
      using c r eq by (auto simp: cursor_at_def mod_Suc div_Suc)
  next
    case False
    with assms(2) have e: "Suc idx = W * H" by simp
    then have m: "Suc idx mod W = 0" and d: "Suc idx div W = H" using W by simp_all
    from m have s: "Suc (idx mod W) = W" by (simp add: mod_Suc split: if_splits)
    from d m have "Suc (idx div W) = H" by (simp add: div_Suc)
    then have "row + 1 = int H" using r by simp
    with e s eq show ?thesis by (simp add: cursor_at_def)
  qed
qed

lemma get_at_cursor:
  assumes "grid_ok g" "num_columns g = int W" "num_rows g = int H"
    and "cursor_at W H idx column row" "idx < W * H"
  shows "get g column row = Inr (theGrid g ! idx)"
  using cursor_inside [OF assms(4,5)] assms(2,3)
  by (simp add: get_def in_bounds_def get_index_def)

lemma grid_ok_length:
  "grid_ok g \<Longrightarrow> num_columns g = int W \<Longrightarrow> num_rows g = int H \<Longrightarrow>
     length (theGrid g) = W * H"
  by (simp add: grid_ok_def flip: of_nat_mult)

lemma save_binary_bits_eq:
  assumes "grid_ok g" "num_columns g = int W" "num_rows g = int H"
    and "cursor_at W H idx column row" "i \<le> 8"
  shows "\<exists>b' column' row'.
           save_binary_bits g (int W) (int H) i b column row = Inr (b', column', row') \<and>
           cursor_at W H (idx + min (8 - i) (W * H - idx)) column' row' \<and>
           (\<forall>j. bit b' j = (bit b j \<or> (i \<le> j \<and> j < 8 \<and> cell_bit g (idx + (j - i)))))"
  using assms(4,5)
proof (induction "8 - i" arbitrary: i b idx column row)
  case 0
  then have "i = 8" by simp
  with 0 show ?case by (subst save_binary_bits.simps) auto
next
  case (Suc n)
  then have i: "i < 8" by simp
  have len: "length (theGrid g) = W * H" using assms(1-3) by (rule grid_ok_length)
  show ?case
  proof (cases "idx < W * H")
    case False
    with Suc.prems(1) have e: "idx = W * H" by (auto simp: cursor_at_def)
    have nb: "\<And>j. \<not> cell_bit g (idx + (j - i))" using e len by (simp add: cell_bit_def)
    from cursor_end [OF Suc.prems(1) False] e Suc.prems(1) nb show ?thesis
      by (subst save_binary_bits.simps) auto
  next
    case True
    let ?c = "if column + 1 = int W then 0 else column + 1"
    let ?r = "if column + 1 = int W then row + 1 else row"
    let ?b = "if theGrid g ! idx = ALIVE then b OR push_bit i 1 else b OR push_bit i 0"
    have inside: "column \<le> int W - 1" "row \<le> int H - 1"
      using cursor_inside [OF Suc.prems(1) True] by simp_all
    have gt: "get g column row = Inr (theGrid g ! idx)"
      using assms(1-3) Suc.prems(1) True by (rule get_at_cursor)
    have unfold: "save_binary_bits g (int W) (int H) i b column row =
                  save_binary_bits g (int W) (int H) (i + 1) ?b ?c ?r"
      using i inside gt by (subst save_binary_bits.simps) (simp add: Let_def)
    have "\<exists>b' column' row'.
           save_binary_bits g (int W) (int H) (i + 1) ?b ?c ?r = Inr (b', column', row') \<and>
           cursor_at W H (Suc idx + min (8 - (i + 1)) (W * H - Suc idx)) column' row' \<and>
           (\<forall>j. bit b' j = (bit ?b j \<or> (i + 1 \<le> j \<and> j < 8 \<and> cell_bit g (Suc idx + (j - (i + 1))))))"
      using Suc.hyps(2) i cursor_step [OF Suc.prems(1) True]
      by (intro Suc.hyps(1)) simp_all
    then obtain b' column' row' where
      res: "save_binary_bits g (int W) (int H) (i + 1) ?b ?c ?r = Inr (b', column', row')" and
      cur: "cursor_at W H (Suc idx + min (8 - (i + 1)) (W * H - Suc idx)) column' row'" and
      bits: "\<And>j. bit b' j = (bit ?b j \<or> (i + 1 \<le> j \<and> j < 8 \<and> cell_bit g (Suc idx + (j - (i + 1)))))"
      by blast
    have adv: "Suc idx + min (8 - (i + 1)) (W * H - Suc idx) = idx + min (8 - i) (W * H - idx)"
      using i True by (auto simp: min_def)
    have bb: "\<And>j. bit ?b j = (bit b j \<or> (j = i \<and> cell_bit g idx))"
      using i True len by (auto simp: cell_bit_def bit_simps)
    have "\<And>j. bit b' j = (bit b j \<or> (i \<le> j \<and> j < 8 \<and> cell_bit g (idx + (j - i))))"
    proof -
      fix j
      show "bit b' j = (bit b j \<or> (i \<le> j \<and> j < 8 \<and> cell_bit g (idx + (j - i))))"
      proof (cases "j = i")
        case True
        then show ?thesis unfolding bits bb using i by auto
      next
        case False
        then have "i + 1 \<le> j \<longleftrightarrow> i \<le> j" by auto
        moreover have "i + 1 \<le> j \<Longrightarrow> Suc idx + (j - (i + 1)) = idx + (j - i)" by simp
        ultimately show ?thesis unfolding bits bb using False by auto
      qed
    qed
    moreover have "cursor_at W H (idx + min (8 - i) (W * H - idx)) column' row'"
      using cur unfolding adv .
    moreover have "save_binary_bits g (int W) (int H) i b column row = Inr (b', column', row')"
      using unfold res by simp
    ultimately show ?thesis by blast
  qed
qed

lemma bit_fold_pack:
  "bit (fold (\<lambda>j b. if P j then b OR push_bit j 1 else b) js (b0 :: byte)) j =
     (bit b0 j \<or> (j \<in> set js \<and> P j \<and> j < 8))"
  by (induction js arbitrary: b0) (auto simp: bit_simps)

lemma bit_packed_byte: "bit (packed_byte g k) j = (j < 8 \<and> cell_bit g (8 * k + j))"
  unfolding packed_byte_def bit_fold_pack by auto

lemma int_mult_in_range:
  "INT_MIN \<le> a * b \<Longrightarrow> a * b \<le> INT_MAX \<Longrightarrow> int_mult a b = a * b"
  unfolding int_mult_def sint_sbintrunc'
  using signed_take_bit_int_eq_self [of 31 "a * b"]
  by (simp add: INT_MIN_def INT_MAX_def)

lemma int_mult_nat:
  "int (W * H) \<le> INT_MAX \<Longrightarrow> int_mult (int W) (int H) = int (W * H)"
proof -
  assume "int (W * H) \<le> INT_MAX"
  then have "int W * int H \<le> INT_MAX" by simp
  moreover have "0 \<le> int W * int H" by simp
  then have "INT_MIN \<le> int W * int H" unfolding INT_MIN_def by linarith
  ultimately have "int_mult (int W) (int H) = int W * int H" by (intro int_mult_in_range)
  then show ?thesis by simp
qed

lemma grid_ok_int_mult:
  assumes "grid_ok g" "num_columns g = int W" "num_rows g = int H"
  shows "int_mult (int W) (int H) = int (W * H)"
proof -
  have "int (W * H) \<le> INT_MAX" using assms by (simp add: grid_ok_def)
  then show ?thesis by (rule int_mult_nat)
qed

lemma cdiv_8: "cdiv (int a) 8 = int (a div 8)"
  using cdiv_nat [of a 8] by simp

lemma cdiv_nonneg: "0 \<le> a \<Longrightarrow> cdiv a 8 = a div 8"
  by (auto simp: cdiv_def sgn_if)

lemma save_binary_bytes_eq:
  assumes "grid_ok g" "num_columns g = int W" "num_rows g = int H"
    and "k \<le> W * H div 8 \<Longrightarrow> cursor_at W H (8 * k) column row"
    and "k \<le> Suc (W * H div 8)"
  shows "save_binary_bytes g (int W) (int H) (int k) out b column row =
         Inr (out @ (if k \<le> W * H div 8
                     then (b OR packed_byte g k) # map (packed_byte g) [Suc k..<Suc (W * H div 8)]
                     else []))"
  using assms(4,5)
proof (induction "Suc (W * H div 8) - k" arbitrary: k out b column row)
  case 0
  then have "k = Suc (W * H div 8)" by simp
  then show ?case
    by (subst save_binary_bytes.simps) (simp add: grid_ok_int_mult [OF assms(1-3)] cdiv_8 flip: of_nat_mult)
next
  case (Suc n)
  let ?K = "W * H div 8"
  from Suc have k: "k \<le> ?K" by simp
  then have lt: "int k < cdiv (int_mult (int W) (int H)) 8 + 1"
    using cdiv_8 [of "W * H"] by (simp add: grid_ok_int_mult [OF assms(1-3)])
  have cur: "cursor_at W H (8 * k) column row" using Suc.prems(1) k by simp
  from save_binary_bits_eq [OF assms(1-3) cur, of 0 b]
  obtain b' column' row' where
    res: "save_binary_bits g (int W) (int H) 0 b column row = Inr (b', column', row')" and
    cur': "cursor_at W H (8 * k + min (8 - 0) (W * H - 8 * k)) column' row'" and
    bits: "\<And>j. bit b' j = (bit b j \<or> (0 \<le> j \<and> j < 8 \<and> cell_bit g (8 * k + (j - 0))))"
    by blast
  have b': "b' = b OR packed_byte g k"
    by (rule bit_eqI) (simp add: bits bit_simps bit_packed_byte)
  have next_cur: "Suc k \<le> ?K \<Longrightarrow> cursor_at W H (8 * Suc k) column' row'"
  proof -
    assume "Suc k \<le> ?K"
    then have "8 * Suc k \<le> W * H" by (simp add: less_eq_div_iff_mult_less_eq mult.commute)
    then have "8 * k + min (8 - 0) (W * H - 8 * k) = 8 * Suc k" by simp
    with cur' show ?thesis by (simp only:)
  qed
  have IH: "save_binary_bytes g (int W) (int H) (int (Suc k)) (out @ [b']) 0 column' row' =
         Inr ((out @ [b']) @ (if Suc k \<le> ?K
                     then (0 OR packed_byte g (Suc k)) # map (packed_byte g) [Suc (Suc k)..<Suc ?K]
                     else []))"
    using Suc.hyps(2) k next_cur by (intro Suc.hyps(1)) simp_all
  have tail: "(if Suc k \<le> ?K
               then (0 OR packed_byte g (Suc k)) # map (packed_byte g) [Suc (Suc k)..<Suc ?K]
               else []) = map (packed_byte g) [Suc k..<Suc ?K]"
  proof (cases "Suc k \<le> ?K")
    case True
    then have "[Suc k..<Suc ?K] = Suc k # [Suc (Suc k)..<Suc ?K]"
      by (intro upt_conv_Cons) simp
    then have "map (packed_byte g) [Suc k..<Suc ?K] =
               packed_byte g (Suc k) # map (packed_byte g) [Suc (Suc k)..<Suc ?K]"
      by (simp only: list.map)
    with True show ?thesis by simp
  next
    case False
    then show ?thesis by simp
  qed
  have "save_binary_bytes g (int W) (int H) (int k) out b column row =
        save_binary_bytes g (int W) (int H) (int (Suc k)) (out @ [b']) 0 column' row'"
    using lt res by (subst save_binary_bytes.simps) (simp add: add.commute)
  with IH tail b' k show ?case by simp
qed

lemma save_binary_eq:
  assumes "grid_ok g" "fs path \<noteq> Locked"
  shows "save_binary buffer0 fs path g =
         Inr (fs(path := Data (int_bytes (num_columns g) @ int_bytes (num_rows g) @
                (buffer0 OR packed_byte g 0) #
                map (packed_byte g) [1..<Suc (length (theGrid g) div 8)])))"
proof -
  from assms(1) obtain W H where wh: "num_columns g = int W" "num_rows g = int H"
    by (metis grid_ok_def nonneg_int_cases)
  have len: "length (theGrid g) = W * H" using assms(1) wh by (rule grid_ok_length)
  show ?thesis
    using save_binary_bytes_eq [OF assms(1) wh, of 0 0 0 _ buffer0] assms(2) wh len
    by (simp add: save_binary_def get_width_def get_height_def cursor_start)
qed

lemma load_binary_bits_total:
  assumes "num_columns g = w" "num_rows g = h" "0 \<le> column" "0 \<le> row"
  shows "\<exists>g' column' row'.
           load_binary_bits w h i b g column row = Inr (g', column', row') \<and>
           num_columns g' = w \<and> num_rows g' = h \<and> 0 \<le> column' \<and> 0 \<le> row'"
  using assms
proof (induction "8 - i" arbitrary: i g column row)
  case 0
  then show ?case by (subst load_binary_bits.simps) simp
next
  case (Suc n)
  show ?case
  proof (cases "i < 8 \<and> column \<le> w - 1 \<and> row \<le> h - 1")
    case False
    with Suc.prems show ?thesis by (subst load_binary_bits.simps) auto
  next
    case True
    let ?g1 = "if drop_bit i b AND 1 = 1
               then g\<lparr>theGrid := (theGrid g)[nat (get_index g column row) := ALIVE]\<rparr> else g"
    let ?c = "if column + 1 = w then 0 else column + 1"
    let ?r = "if column + 1 = w then row + 1 else row"
    have st: "(if drop_bit i b AND 1 = 1 then set_cell g column row ALIVE else Inr g) = Inr ?g1"
      using True Suc.prems by (simp add: set_cell_def in_bounds_def)
    have unfold: "load_binary_bits w h i b g column row = load_binary_bits w h (i + 1) b ?g1 ?c ?r"
      using True by (subst load_binary_bits.simps) (simp add: st del: One_nat_def)
    have "\<exists>g' column' row'.
           load_binary_bits w h (i + 1) b ?g1 ?c ?r = Inr (g', column', row') \<and>
           num_columns g' = w \<and> num_rows g' = h \<and> 0 \<le> column' \<and> 0 \<le> row'"
      using Suc.hyps(2) Suc.prems True by (intro Suc.hyps(1)) auto
    with unfold show ?thesis by simp
  qed
qed

lemma stream_get_short:
  assumes "(good s \<and> int (length (pending s)) < m) \<or> (eofbit s \<and> failbit s)"
    and "stream_get s b = (s', b')"
  shows "(good s' \<and> int (length (pending s')) < m - 1) \<or> (eofbit s' \<and> failbit s')"
  using assms by (auto simp: stream_get_def good_def split: if_splits list.splits)

lemma load_binary_bytes_short:
  assumes "num_columns g = w" "num_rows g = h" "0 \<le> column" "0 \<le> row"
    and "(good s \<and> int (length (pending s)) < cdiv (int_mult w h) 8 + 1 - k) \<or> (eofbit s \<and> failbit s)"
  shows "\<exists>s' g'. load_binary_bytes w h k s b g column row = Inr (s', g') \<and>
           eofbit s' \<and> failbit s'"
  using assms
proof (induction "nat (cdiv (int_mult w h) 8 + 1 - k)" arbitrary: k s b g column row)
  case 0
  then have fin: "\<not> k < cdiv (int_mult w h) 8 + 1" by simp
  with "0.prems"(5) have "eofbit s \<and> failbit s" by auto
  with fin show ?case by (subst load_binary_bytes.simps) simp
next
  case (Suc n)
  then have lt: "k < cdiv (int_mult w h) 8 + 1" by simp
  obtain s1 b1 where sg: "stream_get s b = (s1, b1)" by (cases "stream_get s b")
  from load_binary_bits_total [OF Suc.prems(1-4), of 0 b1]
  obtain g1 c1 r1 where bits: "load_binary_bits w h 0 b1 g column row = Inr (g1, c1, r1)"
    and inv: "num_columns g1 = w" "num_rows g1 = h" "0 \<le> c1" "0 \<le> r1" by blast
  have short: "(good s1 \<and> int (length (pending s1)) < cdiv (int_mult w h) 8 + 1 - (k + 1)) \<or>
               (eofbit s1 \<and> failbit s1)"
    using stream_get_short [OF Suc.prems(5) sg] by (simp add: algebra_simps)
  have "\<exists>s' g'. load_binary_bytes w h (k + 1) s1 b1 g1 c1 r1 = Inr (s', g') \<and>
           eofbit s' \<and> failbit s'"
    using Suc.hyps(2) by (intro Suc.hyps(1) inv short) simp
  moreover have "load_binary_bytes w h k s b g column row =
                 load_binary_bytes w h (k + 1) s1 b1 g1 c1 r1"
    using lt sg bits by (subst load_binary_bytes.simps) simp
  ultimately show ?case by simp
qed

lemma read_header:
  assumes "binary_header bs = Some (width, height, body)"
  shows "stream_read \<lparr>pending = bs, eofbit = False, failbit = False\<rparr> 4 old1 =
           (\<lparr>pending = drop 4 bs, eofbit = False, failbit = False\<rparr>, take 4 bs)"
    and "stream_read \<lparr>pending = drop 4 bs, eofbit = False, failbit = False\<rparr> 4 old2 =
           (\<lparr>pending = body, eofbit = False, failbit = False\<rparr>, take 4 (drop 4 bs))"
    and "bytes_int (take 4 bs) = width" "bytes_int (take 4 (drop 4 bs)) = height"
  using assms
  by (auto simp: binary_header_def stream_read_def good_def split: if_splits)

lemma bytes_word_bytes: "bytes_word (word_bytes w) = w"
proof (rule bit_eqI)
  fix n
  assume "possible_bit TYPE(32 word) n"
  then have n: "n < 32" by simp
  consider "n < 8" | "8 \<le> n" "n < 16" | "16 \<le> n" "n < 24" | "24 \<le> n" "n < 32"
    using n by linarith
  then show "bit (bytes_word (word_bytes w)) n = bit w n"
  proof cases
    case 1
    then show ?thesis by (simp add: bytes_word_def word_bytes_def bit_simps)
  next
    case 2
    then have "8 + (n - 8) = n" by simp
    with 2 show ?thesis by (auto simp: bytes_word_def word_bytes_def bit_simps)
  next
    case 3
    then have "16 + (n - 16) = n" "n - 8 - 8 = n - 16" "\<not> n - 8 < 8" "\<not> n < 8" "n - 16 < 8"
      by simp_all
    with 3 show ?thesis by (auto simp: bytes_word_def word_bytes_def bit_simps)
  next
    case 4
    then have "24 + (n - 24) = n" "n - 8 - 8 - 8 = n - 24" "\<not> n - 8 < 8" "\<not> n - 16 < 8"
      "n - 8 - 8 = n - 16" "n - 24 < 8" "\<not> n < 8"
      by simp_all
    with 4 show ?thesis by (auto simp: bytes_word_def word_bytes_def bit_simps)
  qed
qed

lemma bytes_int_bytes:
  assumes "INT_MIN \<le> v" "v \<le> INT_MAX"
  shows "bytes_int (int_bytes v) = v" and "length (int_bytes v) = 4"
proof -
  have "sint (word_of_int v :: 32 word) = v"
    using assms signed_take_bit_int_eq_self [of 31 v]
    by (simp add: sint_sbintrunc' INT_MIN_def INT_MAX_def)
  then show "bytes_int (int_bytes v) = v"
    by (simp add: bytes_int_def int_bytes_def bytes_word_bytes)
  show "length (int_bytes v) = 4" by (simp add: int_bytes_def word_bytes_def)
qed

section \<open>Reading back what was packed\<close>

lemma bit_test: "(drop_bit i (b :: byte) AND 1 = 1) = bit b i"
  by (simp add: bit_iff_and_drop_bit_eq_1)

lemma load_binary_bits_eq:
  assumes "num_columns g = int W" "num_rows g = int H" "length (theGrid g) = W * H"
    and "cursor_at W H idx column row" "i \<le> 8"
  shows "\<exists>g' column' row'.
           load_binary_bits (int W) (int H) i b g column row = Inr (g', column', row') \<and>
           cursor_at W H (idx + min (8 - i) (W * H - idx)) column' row' \<and>
           num_columns g' = int W \<and> num_rows g' = int H \<and> length (theGrid g') = W * H \<and>
           (\<forall>k. theGrid g' ! k =
                  (if idx \<le> k \<and> k < idx + min (8 - i) (W * H - idx) \<and> bit b (i + (k - idx))
                   then ALIVE else theGrid g ! k))"
  using assms
proof (induction "8 - i" arbitrary: i g idx column row)
  case 0
  then have "i = 8" by simp
  with 0 show ?case by (subst load_binary_bits.simps) auto
next
  case (Suc n)
  then have i: "i < 8" by simp
  show ?case
  proof (cases "idx < W * H")
    case False
    with Suc.prems(4) have e: "idx = W * H" by (auto simp: cursor_at_def)
    from cursor_end [OF Suc.prems(4) False] e Suc.prems show ?thesis
      by (subst load_binary_bits.simps) auto
  next
    case True
    let ?c = "if column + 1 = int W then 0 else column + 1"
    let ?r = "if column + 1 = int W then row + 1 else row"
    define g1 where "g1 = (if bit b i then g\<lparr>theGrid := (theGrid g)[idx := ALIVE]\<rparr> else g)"
    have inside: "column \<le> int W - 1" "row \<le> int H - 1"
      using cursor_inside [OF Suc.prems(4) True] by simp_all
    have st: "(if drop_bit i b AND 1 = 1 then set_cell g column row ALIVE else Inr g) = Inr g1"
      using cursor_inside [OF Suc.prems(4) True] Suc.prems(1,2)
      by (simp add: bit_test set_cell_def in_bounds_def get_index_def g1_def)
    have unfold: "load_binary_bits (int W) (int H) i b g column row =
                  load_binary_bits (int W) (int H) (i + 1) b g1 ?c ?r"
      using i inside by (subst load_binary_bits.simps) (simp add: st del: One_nat_def)
    have d1: "num_columns g1 = int W" "num_rows g1 = int H" "length (theGrid g1) = W * H"
      using Suc.prems(1-3) by (simp_all add: g1_def)
    have n: "n = 8 - (i + 1)" using Suc.hyps(2) by simp
    have i1: "i + 1 \<le> 8" using i by simp
    from Suc.hyps(1) [OF n d1 cursor_step [OF Suc.prems(4) True] i1]
    obtain g' column' row' where
      res: "load_binary_bits (int W) (int H) (i + 1) b g1 ?c ?r = Inr (g', column', row')" and
      cur: "cursor_at W H (Suc idx + min (8 - (i + 1)) (W * H - Suc idx)) column' row'" and
      dims: "num_columns g' = int W" "num_rows g' = int H" "length (theGrid g') = W * H" and
      cells: "\<And>k. theGrid g' ! k =
                  (if Suc idx \<le> k \<and> k < Suc idx + min (8 - (i + 1)) (W * H - Suc idx) \<and>
                      bit b (i + 1 + (k - Suc idx))
                   then ALIVE else theGrid g1 ! k)"
      by blast
    have adv: "Suc idx + min (8 - (i + 1)) (W * H - Suc idx) = idx + min (8 - i) (W * H - idx)"
      using i True by (auto simp: min_def)
    have "\<And>k. theGrid g' ! k =
                  (if idx \<le> k \<and> k < idx + min (8 - i) (W * H - idx) \<and> bit b (i + (k - idx))
                   then ALIVE else theGrid g ! k)"
    proof -
      fix k
      show "theGrid g' ! k =
                  (if idx \<le> k \<and> k < idx + min (8 - i) (W * H - idx) \<and> bit b (i + (k - idx))
                   then ALIVE else theGrid g ! k)"
      proof (cases "k = idx")
        case k: True
        have "0 < min (8 - i) (W * H - idx)" using i True by simp
        then show ?thesis
          using cells [of k] k True Suc.prems(3) by (simp add: g1_def)
      next
        case False
        have "Suc idx \<le> k \<Longrightarrow> i + 1 + (k - Suc idx) = i + (k - idx)" by simp
        moreover have "Suc idx \<le> k \<longleftrightarrow> idx \<le> k" using False by auto
        moreover have "theGrid g1 ! k = theGrid g ! k" using False by (simp add: g1_def)
        ultimately show ?thesis using cells [of k] unfolding adv by auto
      qed
    qed
    moreover have "cursor_at W H (idx + min (8 - i) (W * H - idx)) column' row'"
      using cur unfolding adv .
    moreover have "load_binary_bits (int W) (int H) i b g column row = Inr (g', column', row')"
      using unfold res by simp
    ultimately show ?thesis using dims by blast
  qed
qed

lemma load_binary_bytes_eq:
  assumes rng: "int (W * H) \<le> INT_MAX"
    and "num_columns g = int W" "num_rows g = int H" "length (theGrid g) = W * H"
    and "k \<le> W * H div 8 \<Longrightarrow> cursor_at W H (8 * k) column row"
    and "k \<le> Suc (W * H div 8)"
    and "good s" "pending s = bytes" "length bytes = Suc (W * H div 8) - k"
  shows "\<exists>g'. load_binary_bytes (int W) (int H) (int k) s b g column row =
              Inr (s\<lparr>pending := []\<rparr>, g') \<and>
           num_columns g' = int W \<and> num_rows g' = int H \<and> length (theGrid g') = W * H \<and>
           (\<forall>idx. theGrid g' ! idx =
                  (if 8 * k \<le> idx \<and> idx < W * H \<and> bit (bytes ! (idx div 8 - k)) (idx mod 8)
                   then ALIVE else theGrid g ! idx))"
  using assms(2-)
proof (induction "Suc (W * H div 8) - k" arbitrary: k s b g column row bytes)
  case 0
  then have k: "k = Suc (W * H div 8)" and e: "pending s = []" by simp_all
  have big: "\<And>idx. 8 * k \<le> idx \<Longrightarrow> \<not> idx < W * H"
  proof
    fix idx assume a: "8 * k \<le> idx" "idx < W * H"
    have "W * H < 8 * Suc (W * H div 8)" using dividend_less_times_div [of 8 "W * H"] by simp
    with a k show False by simp
  qed
  have "load_binary_bytes (int W) (int H) (int k) s b g column row = Inr (s, g)"
    using k by (subst load_binary_bytes.simps) (simp add: int_mult_nat [OF rng] cdiv_8 flip: of_nat_mult)
  moreover have "s\<lparr>pending := []\<rparr> = s" using e by simp
  ultimately show ?case using "0.prems"(1-3) big by auto
next
  case (Suc n)
  let ?K = "W * H div 8"
  from Suc have k: "k \<le> ?K" by simp
  then have lt: "int k < cdiv (int_mult (int W) (int H)) 8 + 1"
    using cdiv_8 [of "W * H"] by (simp add: int_mult_nat [OF rng])
  have cur: "cursor_at W H (8 * k) column row" using Suc.prems(4) k by simp
  from Suc.prems(8) Suc.hyps(2) obtain b1 rest where bytes: "bytes = b1 # rest"
    by (cases bytes) auto
  let ?s1 = "s\<lparr>pending := rest\<rparr>"
  have sg: "stream_get s b = (?s1, b1)"
    using Suc.prems(6,7) bytes by (simp add: stream_get_def)
  from load_binary_bits_eq [OF Suc.prems(1-3) cur, of 0 b1]
  obtain g1 column' row' where
    res: "load_binary_bits (int W) (int H) 0 b1 g column row = Inr (g1, column', row')" and
    cur': "cursor_at W H (8 * k + min (8 - 0) (W * H - 8 * k)) column' row'" and
    d1: "num_columns g1 = int W" "num_rows g1 = int H" "length (theGrid g1) = W * H" and
    c1: "\<And>idx. theGrid g1 ! idx =
            (if 8 * k \<le> idx \<and> idx < 8 * k + min (8 - 0) (W * H - 8 * k) \<and> bit b1 (0 + (idx - 8 * k))
             then ALIVE else theGrid g ! idx)"
    by blast
  have next_cur: "Suc k \<le> ?K \<Longrightarrow> cursor_at W H (8 * Suc k) column' row'"
  proof -
    assume "Suc k \<le> ?K"
    then have "8 * Suc k \<le> W * H" by (simp add: less_eq_div_iff_mult_less_eq mult.commute)
    then have "8 * k + min (8 - 0) (W * H - 8 * k) = 8 * Suc k" by simp
    with cur' show ?thesis by (simp only:)
  qed
  have n: "n = Suc ?K - Suc k" using Suc.hyps(2) by simp
  have p5: "Suc k \<le> Suc ?K" using k by simp
  have p6: "good ?s1" using Suc.prems(6) by (simp add: good_def)
  have p7: "pending ?s1 = rest" by simp
  have p8: "length rest = Suc ?K - Suc k" using Suc.prems(8) bytes by simp
  from Suc.hyps(1) [OF n d1 next_cur p5 p6 p7 p8, of b1]
  obtain g' where
    rec: "load_binary_bytes (int W) (int H) (int (Suc k)) ?s1 b1 g1 column' row' =
            Inr (?s1\<lparr>pending := []\<rparr>, g')" and
    dims: "num_columns g' = int W" "num_rows g' = int H" "length (theGrid g') = W * H" and
    cells: "\<And>idx. theGrid g' ! idx =
              (if 8 * Suc k \<le> idx \<and> idx < W * H \<and> bit (rest ! (idx div 8 - Suc k)) (idx mod 8)
               then ALIVE else theGrid g1 ! idx)"
    by blast
  have unfold: "load_binary_bytes (int W) (int H) (int k) s b g column row =
                load_binary_bytes (int W) (int H) (int (Suc k)) ?s1 b1 g1 column' row'"
    using lt sg res by (subst load_binary_bytes.simps) (simp add: add.commute)
  have "\<And>idx. theGrid g' ! idx =
              (if 8 * k \<le> idx \<and> idx < W * H \<and> bit (bytes ! (idx div 8 - k)) (idx mod 8)
               then ALIVE else theGrid g ! idx)"
  proof -
    fix idx
    consider "idx < 8 * k" | "8 * k \<le> idx" "idx < 8 * Suc k" | "8 * Suc k \<le> idx"
      by linarith
    then show "theGrid g' ! idx =
              (if 8 * k \<le> idx \<and> idx < W * H \<and> bit (bytes ! (idx div 8 - k)) (idx mod 8)
               then ALIVE else theGrid g ! idx)"
    proof cases
      case 1
      then show ?thesis using cells [of idx] c1 [of idx] by simp
    next
      case 2
      then have dv: "idx div 8 = k" by (simp add: div_nat_eqI mult.commute)
      have md: "idx mod 8 = idx - 8 * k"
        using dv by (metis minus_mult_div_eq_mod)
      have "(idx < 8 * k + min (8 - 0) (W * H - 8 * k)) = (idx < W * H)" using 2 by auto
      then show ?thesis
        using cells [of idx] c1 [of idx] 2 dv md bytes by simp
    next
      case 3
      then have "Suc k \<le> idx div 8" by (simp add: less_eq_div_iff_mult_less_eq mult.commute)
      then have "bytes ! (idx div 8 - k) = rest ! (idx div 8 - Suc k)"
        using bytes by (simp add: Suc_diff_le)
      moreover have "\<not> idx < 8 * k + min (8 - 0) (W * H - 8 * k)" using 3 by simp
      ultimately show ?thesis using cells [of idx] c1 [of idx] 3 by simp
    qed
  qed
  moreover have "load_binary_bytes (int W) (int H) (int k) s b g column row =
            Inr (s\<lparr>pending := []\<rparr>, g')"
    using unfold rec by simp
  ultimately show ?case using dims by blast
qed

lemma binary_header_of_save:
  assumes "INT_MIN \<le> w" "w \<le> INT_MAX" "INT_MIN \<le> h" "h \<le> INT_MAX"
  shows "binary_header (int_bytes w @ int_bytes h @ body) = Some (w, h, body)"
  using bytes_int_bytes [OF assms(1,2)] bytes_int_bytes [OF assms(3,4)]
  by (simp add: binary_header_def)

lemma binary_round_trip_zeroed_buffer:
  assumes "grid_ok g" "legal_cells g" "fs path \<noteq> Locked"
  shows "\<exists>fs'. save_binary 0 fs path g = Inr fs' \<and>
           load_binary width0 height0 buffer0 fs' path = Inr g"
proof -
  from assms(1) obtain W H where wh: "num_columns g = int W" "num_rows g = int H"
    by (metis grid_ok_def nonneg_int_cases)
  have len: "length (theGrid g) = W * H" using assms(1) wh by (rule grid_ok_length)
  let ?K = "W * H div 8"
  let ?body = "map (packed_byte g) [0..<Suc ?K]"
  let ?file = "int_bytes (int W) @ int_bytes (int H) @ ?body"
  let ?fs' = "fs(path := Data ?file)"
  have "[0..<Suc ?K] = 0 # [1..<Suc ?K]" by (simp add: upt_conv_Cons del: upt_Suc)
  then have body: "(0 OR packed_byte g 0) # map (packed_byte g) [1..<Suc ?K] = ?body"
    by (simp del: upt_Suc)
  have sv: "save_binary 0 fs path g = Inr ?fs'"
    using save_binary_eq [where fs = fs and path = path and ?buffer0.0 = 0, OF assms(1,3)]
    unfolding wh len body .
  have range: "INT_MIN \<le> int W" "int W \<le> INT_MAX" "INT_MIN \<le> int H" "int H \<le> INT_MAX"
    using assms(1) wh by (simp_all add: grid_ok_def INT_MIN_def)
  have hd: "binary_header ?file = Some (int W, int H, ?body)"
    using range by (rule binary_header_of_save)
  let ?g0 = "\<lparr>theGrid = replicate (nat (int W * int H)) DEAD, num_columns = int W, num_rows = int H\<rparr>"
  let ?s = "\<lparr>pending = ?body, eofbit = False, failbit = False\<rparr>"
  have gr: "Grid_wh (int W) (int H) = Inr ?g0" by (simp add: Grid_wh_def)
  have l0: "length (theGrid ?g0) = W * H" by (simp add: nat_mult_distrib)
  have rng: "int (W * H) \<le> INT_MAX" using assms(1) wh by (simp add: grid_ok_def)
  from load_binary_bytes_eq [of W H ?g0 0 0 0 ?s ?body buffer0, OF rng _ _ l0]
  obtain g' where
    ld: "load_binary_bytes (int W) (int H) 0 ?s buffer0 ?g0 0 0 = Inr (?s\<lparr>pending := []\<rparr>, g')" and
    dims: "num_columns g' = int W" "num_rows g' = int H" "length (theGrid g') = W * H" and
    cells: "\<And>idx. theGrid g' ! idx =
              (if 8 * 0 \<le> idx \<and> idx < W * H \<and> bit (?body ! (idx div 8 - 0)) (idx mod 8)
               then ALIVE else theGrid ?g0 ! idx)"
    by (auto simp: cursor_start good_def simp del: upt_Suc)
  have "theGrid g' = theGrid g"
  proof (rule nth_equalityI)
    show "length (theGrid g') = length (theGrid g)" using dims len by simp
  next
    fix idx assume "idx < length (theGrid g')"
    then have i: "idx < W * H" using dims by simp
    then have "idx div 8 < Suc ?K" by (simp add: div_le_mono less_Suc_eq_le)
    then have "?body ! (idx div 8) = packed_byte g (idx div 8)"
      by (metis add_0 nth_map_upt diff_zero)
    then have "bit (?body ! (idx div 8 - 0)) (idx mod 8) = (theGrid g ! idx = ALIVE)"
      using i len by (simp add: bit_packed_byte cell_bit_def)
    moreover have "theGrid g ! idx = ALIVE \<or> theGrid g ! idx = DEAD"
      using assms(2) i len by (simp add: legal_cells_def list_all_length)
    moreover have "theGrid ?g0 ! idx = DEAD" using i by (simp add: nat_mult_distrib)
    ultimately show "theGrid g' ! idx = theGrid g ! idx"
      using cells [of idx] i by auto
  qed
  then have "g' = g" using dims wh by simp
  then have "load_binary width0 height0 buffer0 ?fs' path = Inr g"
    unfolding load_binary_def
    using read_header [OF hd] gr ld by (simp add: open_in_def good_def del: upt_Suc)
  with sv show ?thesis by blast
qed

text \<open>
  A file with fewer body bytes than \<open>ceil(width * height / 8)\<close> is rejected when the
  cell count of its header is a value of \<^verbatim>\<open>int\<close>.
\<close>

lemma short_binary_file_fails_in_range:
  assumes "fs path = Data bs"
    and "binary_header bs = Some (width, height, body)"
    and "width * height \<le> INT_MAX"
    and "length body < ceil_bytes (width * height)"
  shows "load_binary width0 height0 buffer0 fs path =
           Inl (if width < 0 \<or> height < 0 then InvalidDimension else FileEndedUnexpectedly)"
proof (cases "width < 0 \<or> height < 0")
  case True
  then show ?thesis
    unfolding load_binary_def
    using read_header [OF assms(2)] assms(1) by (simp add: Grid_wh_def open_in_def)
next
  case False
  let ?g0 = "\<lparr>theGrid = replicate (nat (width * height)) DEAD, num_columns = width, num_rows = height\<rparr>"
  let ?s = "\<lparr>pending = body, eofbit = False, failbit = False\<rparr>"
  have gr: "Grid_wh width height = Inr ?g0" using False by (simp add: Grid_wh_def)
  have nn: "0 \<le> width * height" using False by simp
  have im: "int_mult width height = width * height"
    using nn assms(3) by (intro int_mult_in_range) (simp_all add: INT_MIN_def)
  have cd: "cdiv (int_mult width height) 8 = width * height div 8"
    unfolding im using nn by (rule cdiv_nonneg)
  have "int (length body) < (width * height + 7) div 8"
    using assms(4) by (simp add: ceil_bytes_def)
  also have "\<dots> \<le> width * height div 8 + 1" by simp
  finally have short: "int (length (pending ?s)) < cdiv (int_mult width height) 8 + 1 - 0"
    using cd by simp
  have "\<exists>s' g'. load_binary_bytes width height 0 ?s buffer0 ?g0 0 0 = Inr (s', g') \<and>
           eofbit s' \<and> failbit s'"
    using short by (intro load_binary_bytes_short) (simp_all add: good_def)
  then obtain s' g' where
    "load_binary_bytes width height 0 ?s buffer0 ?g0 0 0 = Inr (s', g')" "eofbit s'" "failbit s'"
    by blast
  with False gr show ?thesis
    unfolding load_binary_def
    using read_header [OF assms(2)] assms(1) by (simp add: good_def open_in_def)
qed

section \<open>Lemmas about the step\<close>

lemma index_mod_div:
  assumes "X < W"
  shows "int (Y * W + X) mod int W = int X" "int (Y * W + X) div int W = int Y"
proof -
  have "(Y * W + X) mod W = X" "(Y * W + X) div W = Y" using assms by simp_all
  then show "int (Y * W + X) mod int W = int X" "int (Y * W + X) div int W = int Y"
    by (simp_all only: flip: zmod_int zdiv_int)
qed

lemma step_row_inv:
  assumes "grid_ok cur" "num_columns cur = int W" "num_rows cur = int H"
    and "num_columns fut = int W" "num_rows fut = int H" "length (theGrid fut) = W * H"
    and "Y < H" "X \<le> W"
  shows "\<exists>fut'. step_row cur toroidal (int Y) (int X) fut = Inr fut' \<and>
           num_columns fut' = int W \<and> num_rows fut' = int H \<and>
           length (theGrid fut') = W * H \<and>
           (\<forall>k. theGrid fut' ! k =
                  (if Y * W + X \<le> k \<and> k < Y * W + W then rule_at cur toroidal k
                   else theGrid fut ! k))"
  using assms(4-)
proof (induction "W - X" arbitrary: X fut)
  case 0
  then have "X = W" by simp
  with 0 assms(2) show ?case
    by (subst step_row.simps) (auto simp: get_width_def)
next
  case (Suc n)
  then have lt: "X < W" by simp
  let ?k = "Y * W + X"
  let ?v = "next_cell (theGrid cur ! ?k) (count_neighbours cur (int X) (int Y) toroidal)"
  let ?f1 = "fut\<lparr>theGrid := (theGrid fut)[?k := ?v]\<rparr>"
  have gt: "get cur (int X) (int Y) = Inr (theGrid cur ! ?k)"
    using assms(1-3) Suc.prems(4) lt by (rule get_in_range)
  have nk: "nat (int Y * int W + int X) = ?k"
    by (simp add: nat_add_distrib nat_mult_distrib)
  have st: "set_cell fut (int X) (int Y) ?v = Inr ?f1"
    using Suc.prems(1,2,4) lt nk by (simp add: set_cell_def in_bounds_def get_index_def)
  have v: "?v = rule_at cur toroidal ?k"
    using index_mod_div [OF lt, of Y] assms(2) by (simp add: rule_at_def)
  have fits: "?k < length (theGrid fut)"
  proof -
    have "(Y + 1) * W \<le> H * W" using Suc.prems(4) by (intro mult_le_mono1) simp
    then show ?thesis using lt Suc.prems(3) by (simp add: algebra_simps)
  qed
  have "\<exists>fut'. step_row cur toroidal (int Y) (int (Suc X)) ?f1 = Inr fut' \<and>
           num_columns fut' = int W \<and> num_rows fut' = int H \<and>
           length (theGrid fut') = W * H \<and>
           (\<forall>k. theGrid fut' ! k =
                  (if Y * W + Suc X \<le> k \<and> k < Y * W + W then rule_at cur toroidal k
                   else theGrid ?f1 ! k))"
    using Suc.hyps(2) Suc.prems lt by (intro Suc.hyps(1)) simp_all
  then obtain fut' where
    rec: "step_row cur toroidal (int Y) (int (Suc X)) ?f1 = Inr fut'" and
    dims: "num_columns fut' = int W" "num_rows fut' = int H" "length (theGrid fut') = W * H" and
    cells: "\<And>k. theGrid fut' ! k =
                  (if Y * W + Suc X \<le> k \<and> k < Y * W + W then rule_at cur toroidal k
                   else theGrid ?f1 ! k)"
    by blast
  have unfold: "step_row cur toroidal (int Y) (int X) fut =
                step_row cur toroidal (int Y) (int (Suc X)) ?f1"
    using lt assms(2) gt st by (subst step_row.simps) (simp add: get_width_def add.commute)
  have "\<And>k. theGrid fut' ! k =
                  (if ?k \<le> k \<and> k < Y * W + W then rule_at cur toroidal k
                   else theGrid fut ! k)"
  proof -
    fix k
    show "theGrid fut' ! k =
                  (if ?k \<le> k \<and> k < Y * W + W then rule_at cur toroidal k
                   else theGrid fut ! k)"
    proof (cases "k = ?k")
      case True
      then show ?thesis using cells [of k] fits lt v by simp
    next
      case False
      then show ?thesis using cells [of k] by auto
    qed
  qed
  with unfold rec dims show ?case by auto
qed

lemma step_rows_inv:
  assumes "grid_ok cur" "num_columns cur = int W" "num_rows cur = int H"
    and "num_columns fut = int W" "num_rows fut = int H" "length (theGrid fut) = W * H"
    and "Y \<le> H"
  shows "\<exists>fut'. step_rows cur toroidal (int Y) fut = Inr fut' \<and>
           num_columns fut' = int W \<and> num_rows fut' = int H \<and>
           length (theGrid fut') = W * H \<and>
           (\<forall>k. theGrid fut' ! k =
                  (if Y * W \<le> k \<and> k < H * W then rule_at cur toroidal k
                   else theGrid fut ! k))"
  using assms(4-)
proof (induction "H - Y" arbitrary: Y fut)
  case 0
  then have "Y = H" by simp
  with 0 assms(3) show ?case
    by (subst step_rows.simps) (auto simp: get_height_def)
next
  case (Suc n)
  then have lt: "Y < H" by simp
  from step_row_inv [OF assms(1-3) Suc.prems(1-3) lt, of 0 toroidal]
  obtain f1 where
    row: "step_row cur toroidal (int Y) 0 fut = Inr f1" and
    d1: "num_columns f1 = int W" "num_rows f1 = int H" "length (theGrid f1) = W * H" and
    c1: "\<And>k. theGrid f1 ! k =
                  (if Y * W \<le> k \<and> k < Y * W + W then rule_at cur toroidal k
                   else theGrid fut ! k)"
    by auto
  have "\<exists>fut'. step_rows cur toroidal (int (Suc Y)) f1 = Inr fut' \<and>
           num_columns fut' = int W \<and> num_rows fut' = int H \<and>
           length (theGrid fut') = W * H \<and>
           (\<forall>k. theGrid fut' ! k =
                  (if Suc Y * W \<le> k \<and> k < H * W then rule_at cur toroidal k
                   else theGrid f1 ! k))"
    using Suc.hyps(2) lt d1 by (intro Suc.hyps(1)) simp_all
  then obtain fut' where
    rec: "step_rows cur toroidal (int (Suc Y)) f1 = Inr fut'" and
    dims: "num_columns fut' = int W" "num_rows fut' = int H" "length (theGrid fut') = W * H" and
    cells: "\<And>k. theGrid fut' ! k =
                  (if Suc Y * W \<le> k \<and> k < H * W then rule_at cur toroidal k
                   else theGrid f1 ! k)"
    by blast
  have unfold: "step_rows cur toroidal (int Y) fut = step_rows cur toroidal (int (Suc Y)) f1"
    using lt assms(3) row by (subst step_rows.simps) (simp add: get_height_def add.commute)
  have le: "Suc Y * W \<le> H * W" using lt by (intro mult_le_mono1) simp
  have "\<And>k. theGrid fut' ! k =
                  (if Y * W \<le> k \<and> k < H * W then rule_at cur toroidal k
                   else theGrid fut ! k)"
  proof -
    fix k
    show "theGrid fut' ! k =
                  (if Y * W \<le> k \<and> k < H * W then rule_at cur toroidal k
                   else theGrid fut ! k)"
      using cells [of k] c1 [of k] le by auto
  qed
  with unfold rec dims show ?case by auto
qed

lemma step_eq:
  assumes "world_ok w"
  shows "step w toroidal =
           Inr \<lparr>current = next_generation (current w) toroidal, future = current w\<rparr>"
proof -
  from assms have ok: "grid_ok (current w)" "grid_ok (future w)"
    and same: "num_columns (future w) = num_columns (current w)"
      "num_rows (future w) = num_rows (current w)"
    by (simp_all add: world_ok_def)
  from ok(1) obtain W H where wh: "num_columns (current w) = int W" "num_rows (current w) = int H"
    by (metis grid_ok_def nonneg_int_cases)
  have lc: "length (theGrid (current w)) = W * H" using ok(1) wh by (rule grid_ok_length)
  have lf: "length (theGrid (future w)) = W * H"
    using ok(2) same wh by (intro grid_ok_length) simp_all
  from step_rows_inv [OF ok(1) wh _ _ lf, of 0 toroidal] same wh
  obtain fut' where
    rows: "step_rows (current w) toroidal 0 (future w) = Inr fut'" and
    dims: "num_columns fut' = int W" "num_rows fut' = int H" "length (theGrid fut') = W * H" and
    cells: "\<And>k. theGrid fut' ! k =
                  (if 0 * W \<le> k \<and> k < H * W then rule_at (current w) toroidal k
                   else theGrid (future w) ! k)"
    by auto
  have "theGrid fut' = theGrid (next_generation (current w) toroidal)"
  proof (rule nth_equalityI)
    show "length (theGrid fut') = length (theGrid (next_generation (current w) toroidal))"
      using dims lc by (simp add: next_generation_def)
  next
    fix k assume "k < length (theGrid fut')"
    then have k: "k < W * H" using dims by simp
    then show "theGrid fut' ! k = theGrid (next_generation (current w) toroidal) ! k"
      using cells [of k] lc by (simp add: next_generation_def rule_at_def mult.commute)
  qed
  then have "fut' = next_generation (current w) toroidal"
    using dims wh by (simp add: next_generation_def)
  with rows show ?thesis by (simp add: step_def)
qed

section \<open>Lemmas about merging\<close>

lemma merge_row_frame:
  assumes "this \<noteq> other" "0 \<le> x" "0 \<le> y" "y < num_rows (st ! other)"
    and "width = num_columns (st ! other)"
  shows "\<exists>st'. merge_row this other x0 y0 alive_only width y x st = Inr st' \<and>
           length st' = length st \<and> (\<forall>k. k \<noteq> this \<longrightarrow> st' ! k = st ! k)"
  using assms
proof (induction "nat (width - x)" arbitrary: x st)
  case 0
  then have "\<not> x < width" by simp
  then show ?case by (subst merge_row.simps) simp
next
  case (Suc n)
  then have lt: "x < width" by simp
  have gt: "get (st ! other) x y = Inr (theGrid (st ! other) ! nat (get_index (st ! other) x y))"
    using lt Suc.prems by (simp add: get_def in_bounds_def)
  define c where "c = theGrid (st ! other) ! nat (get_index (st ! other) x y)"
  define g' where "g' = (st ! this)\<lparr>theGrid :=
      (theGrid (st ! this))[nat (get_index (st ! this) (x0 + x) (y0 + y)) := c]\<rparr>"
  define st2 where "st2 = st[this := g']"
  have gt: "get (st ! other) x y = Inr c"
    using gt by (simp add: c_def)
  have n: "n = nat (width - (x + 1))" using Suc.hyps(2) by simp
  have x1: "0 \<le> x + 1" using Suc.prems(2) by simp
  have keep: "\<exists>st'. merge_row this other x0 y0 alive_only width y (x + 1) st = Inr st' \<and>
           length st' = length st \<and> (\<forall>k. k \<noteq> this \<longrightarrow> st' ! k = st ! k)"
    by (rule Suc.hyps(1) [OF n Suc.prems(1) x1 Suc.prems(3,4,5)])
  have other': "st2 ! other = st ! other" using Suc.prems(1) by (simp add: st2_def)
  have p4: "y < num_rows (st2 ! other)" and p5: "width = num_columns (st2 ! other)"
    using Suc.prems(4,5) by (simp_all only: other')
  have "\<exists>st'. merge_row this other x0 y0 alive_only width y (x + 1) st2 = Inr st' \<and>
           length st' = length st2 \<and> (\<forall>k. k \<noteq> this \<longrightarrow> st' ! k = st2 ! k)"
    by (rule Suc.hyps(1) [OF n Suc.prems(1) x1 Suc.prems(3) p4 p5])
  moreover have "length st2 = length st" "\<And>k. k \<noteq> this \<Longrightarrow> st2 ! k = st ! k"
    by (simp_all add: st2_def)
  ultimately have wr: "\<exists>st'. merge_row this other x0 y0 alive_only width y (x + 1) st2 = Inr st' \<and>
           length st' = length st \<and> (\<forall>k. k \<noteq> this \<longrightarrow> st' ! k = st ! k)"
    by auto
  show ?case
  proof (cases "in_bounds (st ! this) (x0 + x) (y0 + y)")
    case False
    with lt keep show ?thesis by (subst merge_row.simps) simp
  next
    case True
    then have st: "set_cell (st ! this) (x0 + x) (y0 + y) c = Inr g'"
      by (simp add: set_cell_def g'_def)
    show ?thesis
    proof (cases "\<not> alive_only \<or> c = ALIVE")
      case False
      with lt True gt keep show ?thesis by (subst merge_row.simps) simp
    next
      case w: True
      have "merge_row this other x0 y0 alive_only width y x st =
            merge_row this other x0 y0 alive_only width y (x + 1) st2"
        using lt True gt st w by (subst merge_row.simps) (auto simp: st2_def)
      with wr show ?thesis by simp
    qed
  qed
qed

lemma merge_rows_frame:
  assumes "this \<noteq> other" "0 \<le> y" "height = num_rows (st ! other)"
    and "width = num_columns (st ! other)"
  shows "\<exists>st'. merge_rows this other x0 y0 alive_only width height y st = Inr st' \<and>
           length st' = length st \<and> (\<forall>k. k \<noteq> this \<longrightarrow> st' ! k = st ! k)"
  using assms
proof (induction "nat (height - y)" arbitrary: y st)
  case 0
  then have "\<not> y < height" by simp
  then show ?case by (subst merge_rows.simps) simp
next
  case (Suc n)
  then have lt: "y < height" by simp
  from merge_row_frame [OF Suc.prems(1) _ Suc.prems(2) _ Suc.prems(4), of 0 x0 y0 alive_only]
    lt Suc.prems(3)
  obtain st1 where row: "merge_row this other x0 y0 alive_only width y 0 st = Inr st1"
    and l1: "length st1 = length st" and f1: "\<And>k. k \<noteq> this \<Longrightarrow> st1 ! k = st ! k"
    by auto
  have o1: "st1 ! other = st ! other" using f1 Suc.prems(1) by simp
  have "\<exists>st'. merge_rows this other x0 y0 alive_only width height (y + 1) st1 = Inr st' \<and>
           length st' = length st1 \<and> (\<forall>k. k \<noteq> this \<longrightarrow> st' ! k = st1 ! k)"
    using Suc.hyps(2) Suc.prems o1 by (intro Suc.hyps(1)) simp_all
  then obtain st' where rec: "merge_rows this other x0 y0 alive_only width height (y + 1) st1 = Inr st'"
    and l2: "length st' = length st1" and f2: "\<And>k. k \<noteq> this \<Longrightarrow> st' ! k = st1 ! k"
    by blast
  have "merge_rows this other x0 y0 alive_only width height y st = Inr st'"
    using lt row rec by (subst merge_rows.simps) simp
  with l1 l2 f1 f2 show ?case by simp
qed

section \<open>The text format: claims\<close>

text \<open>
  Claim C9.  For a grid that satisfies the class invariant and holds only ALIVE and DEAD
  cells, \<open>save_ascii\<close> succeeds on a path that can be opened and \<open>load_ascii\<close> of
  the file it wrote returns the same grid: same width, same height, same cells.  Grids of
  width 0 or height 0 are included.  The result does not depend on what the
  uninitialised locals of \<open>load_ascii\<close> held.
\<close>

theorem ascii_round_trip:
  assumes "grid_ok g" and "legal_cells g" and "fs path \<noteq> Locked"
  shows "\<exists>fs'. save_ascii fs path g = Inr fs' \<and> load_ascii width0 height0 x0 fs' path = Inr g"
proof -
  have w: "num_columns g \<le> INT_MAX" "num_rows g \<le> INT_MAX"
    using assms(1) by (simp_all add: grid_ok_def)
  have "save_ascii fs path g = Inr (fs(path := Data (ascii_text g)))"
    using assms(1,3) by (rule save_ascii_eq)
  moreover have "load_ascii width0 height0 x0 (fs(path := Data (ascii_text g))) path = Inr g"
    by (rule load_ascii_text [OF assms(1,2) w]) simp
  ultimately show ?thesis by simp
qed

theorem ascii_round_trip_witness:
  "grid_ok \<lparr>theGrid = ''# '', num_columns = 2, num_rows = 1\<rparr> \<and>
   legal_cells \<lparr>theGrid = ''# '', num_columns = 2, num_rows = 1\<rparr> \<and>
   (\<lambda>p. Missing :: char node) ''a.gol'' \<noteq> Locked \<and>
   (\<exists>fs'. save_ascii (\<lambda>p. Missing) ''a.gol'' \<lparr>theGrid = ''# '', num_columns = 2, num_rows = 1\<rparr> = Inr fs' \<and>
      load_ascii 7 (- 1) (CHR ''x'') fs' ''a.gol'' = Inr \<lparr>theGrid = ''# '', num_columns = 2, num_rows = 1\<rparr>)"
proof -
  let ?g = "\<lparr>theGrid = ''# '', num_columns = 2, num_rows = 1\<rparr>"
  have a: "grid_ok ?g" by (simp add: grid_ok_def INT_MAX_def)
  have b: "legal_cells ?g" by (simp add: legal_cells_def ALIVE_def DEAD_def)
  have c: "(\<lambda>p. Missing :: char node) ''a.gol'' \<noteq> Locked" by simp
  from ascii_round_trip [OF a b c] a b c show ?thesis by blast
qed


text \<open>
  Claim C10.  The byte values of the two enumerators are the two characters of the text
  format, \<open>DEAD\<close> is the space and \<open>ALIVE\<close> is the hash.  A grid that
  \<open>load_ascii\<close> returns has the width and the height of the header and holds, at
  every cell \<open>(j, i)\<close>, the very character read at that cell's place in the file
  (\<open>i * (width + 1) + j\<close> characters after the one that follows the header), stored
  as a Cell with the same byte; since no other character is accepted, every cell is
  one of the two legal values.  \<open>save_ascii\<close> writes the header followed by every
  row as the bytes of its cells, unchanged, and a newline.
\<close>

theorem cell_bytes_are_text_characters:
  "DEAD = CHR '' '' \<and> ALIVE = CHR ''#'' \<and>
   (load_ascii width0 height0 x0 fs path = Inr g \<longrightarrow>
      (\<forall>c\<in>set (theGrid g). c = DEAD \<or> c = ALIVE)) \<and>
   (fs path = Data chars \<and> load_ascii width0 height0 x0 fs path = Inr g \<longrightarrow>
      (\<exists>c0 body.
         ascii_header chars = Some (num_columns g, num_rows g, c0 # body) \<and>
         0 \<le> num_columns g \<and> 0 \<le> num_rows g \<and>
         int (length (theGrid g)) = num_columns g * num_rows g \<and>
         (\<forall>i j. int i < num_rows g \<and> int j < num_columns g \<longrightarrow>
            i * (nat (num_columns g) + 1) + j < length body \<and>
            get g (int j) (int i) = Inr (body ! (i * (nat (num_columns g) + 1) + j))))) \<and>
   (grid_ok g' \<and> fs path \<noteq> Locked \<longrightarrow>
      save_ascii fs path g' = Inr (fs(path := Data (ascii_text g'))))"
proof (intro conjI impI)
  show "DEAD = CHR '' ''" by (simp add: DEAD_def)
  show "ALIVE = CHR ''#''" by (simp add: ALIVE_def)
next
  assume "load_ascii width0 height0 x0 fs path = Inr g"
  then have "legal_cells g" by (rule load_ascii_legal)
  then show "\<forall>c\<in>set (theGrid g). c = DEAD \<or> c = ALIVE"
    by (auto simp: legal_cells_def list_all_iff)
next
  assume a: "fs path = Data chars \<and> load_ascii width0 height0 x0 fs path = Inr g"
  then have "fs path = Data chars" "load_ascii width0 height0 x0 fs path = Inr g" by simp_all
  then show "\<exists>c0 body.
         ascii_header chars = Some (num_columns g, num_rows g, c0 # body) \<and>
         0 \<le> num_columns g \<and> 0 \<le> num_rows g \<and>
         int (length (theGrid g)) = num_columns g * num_rows g \<and>
         (\<forall>i j. int i < num_rows g \<and> int j < num_columns g \<longrightarrow>
            i * (nat (num_columns g) + 1) + j < length body \<and>
            get g (int j) (int i) = Inr (body ! (i * (nat (num_columns g) + 1) + j)))"
    by (rule load_ascii_reads_cells)
next
  assume "grid_ok g' \<and> fs path \<noteq> Locked"
  then show "save_ascii fs path g' = Inr (fs(path := Data (ascii_text g')))"
    by (simp add: save_ascii_eq)
qed

theorem cell_bytes_are_text_characters_witness:
  "(\<lambda>p. Data [CHR ''2'', CHR '' '', CHR ''1'', CHR 0x0A, CHR ''#'', CHR '' '', CHR 0x0A]) ''a.gol''
     = Data [CHR ''2'', CHR '' '', CHR ''1'', CHR 0x0A, CHR ''#'', CHR '' '', CHR 0x0A] \<and>
   load_ascii 0 0 (CHR ''?'') (\<lambda>p. Data [CHR ''2'', CHR '' '', CHR ''1'', CHR 0x0A, CHR ''#'', CHR '' '', CHR 0x0A]) ''a.gol''
     = Inr \<lparr>theGrid = ''# '', num_columns = 2, num_rows = 1\<rparr> \<and>
   set (theGrid \<lparr>theGrid = ''# '', num_columns = 2, num_rows = 1\<rparr>) \<subseteq> {DEAD, ALIVE} \<and>
   (\<exists>c0 body.
      ascii_header [CHR ''2'', CHR '' '', CHR ''1'', CHR 0x0A, CHR ''#'', CHR '' '', CHR 0x0A] =
        Some (2, 1, c0 # body) \<and>
      get \<lparr>theGrid = ''# '', num_columns = 2, num_rows = 1\<rparr> (int 0) (int 0) = Inr (body ! 0) \<and>
      get \<lparr>theGrid = ''# '', num_columns = 2, num_rows = 1\<rparr> (int 1) (int 0) = Inr (body ! 1)) \<and>
   grid_ok \<lparr>theGrid = ''# '', num_columns = 2, num_rows = 1\<rparr> \<and>
   (\<lambda>p. Data [CHR ''2'', CHR '' '', CHR ''1'', CHR 0x0A, CHR ''#'', CHR '' '', CHR 0x0A]) ''a.gol'' \<noteq> Locked \<and>
   save_ascii (\<lambda>p. Data [CHR ''2'', CHR '' '', CHR ''1'', CHR 0x0A, CHR ''#'', CHR '' '', CHR 0x0A]) ''a.gol''
       \<lparr>theGrid = ''# '', num_columns = 2, num_rows = 1\<rparr>
     = Inr ((\<lambda>p. Data [CHR ''2'', CHR '' '', CHR ''1'', CHR 0x0A, CHR ''#'', CHR '' '', CHR 0x0A])
              (''a.gol'' := Data (ascii_text \<lparr>theGrid = ''# '', num_columns = 2, num_rows = 1\<rparr>)))"
proof -
  let ?g = "\<lparr>theGrid = ''# '', num_columns = 2, num_rows = 1\<rparr>"
  let ?chars = "[CHR ''2'', CHR '' '', CHR ''1'', CHR 0x0A, CHR ''#'', CHR '' '', CHR 0x0A]"
  let ?fs = "\<lambda>p::string. Data ?chars"
  have f: "?fs ''a.gol'' = Data ?chars" by simp
  have a: "load_ascii 0 0 (CHR ''?'') ?fs ''a.gol'' = Inr ?g" by code_simp
  have b: "grid_ok ?g" by (simp add: grid_ok_def INT_MAX_def)
  have c: "?fs ''a.gol'' \<noteq> Locked" by simp
  note inst = cell_bytes_are_text_characters
    [where ?width0.0 = 0 and ?height0.0 = 0 and ?x0.0 = "CHR ''?''" and fs = ?fs
       and path = "''a.gol''" and g = ?g and g' = ?g and chars = ?chars]
  from inst a have legal: "\<forall>c\<in>set (theGrid ?g). c = DEAD \<or> c = ALIVE" by blast
  from inst f a obtain c0 body where
    hd: "ascii_header ?chars = Some (num_columns ?g, num_rows ?g, c0 # body)" and
    cells: "\<And>i j. int i < num_rows ?g \<and> int j < num_columns ?g \<Longrightarrow>
            get ?g (int j) (int i) = Inr (body ! (i * (nat (num_columns ?g) + 1) + j))"
    by blast
  from inst b c have sv: "save_ascii ?fs ''a.gol'' ?g = Inr (?fs(''a.gol'' := Data (ascii_text ?g)))"
    by blast
  have "get ?g (int 0) (int 0) = Inr (body ! 0)" using cells [of 0 0] by simp
  moreover have "get ?g (int 1) (int 0) = Inr (body ! 1)" using cells [of 0 1] by simp
  moreover have "set (theGrid ?g) \<subseteq> {DEAD, ALIVE}" using legal by blast
  moreover have "ascii_header ?chars = Some (2, 1, c0 # body)" using hd by simp
  ultimately show ?thesis using f a b c sv by blast
qed

text \<open>
  Claim C6.  A text file whose header parses to a non-negative width and height and
  that holds, at the place of some cell \<open>(j, i)\<close>, a character that is neither the space
  nor the hash, makes \<open>load_ascii\<close> fail with a malformed-content error (the
  cell-character error, or the newline error when an earlier row already lacks its
  newline), never with a bounds error.  The rows start after the character that
  follows the header, and row \<open>i\<close> starts \<open>i * (width + 1)\<close> characters later.
\<close>

theorem bad_cell_character_is_malformed:
  assumes "fs path = Data txt"
    and "ascii_header txt = Some (width, height, c0 # body)"
    and "0 \<le> width" and "0 \<le> height"
    and "int i < height" and "int j < width"
    and "i * (nat width + 1) + j < length body"
    and "body ! (i * (nat width + 1) + j) \<noteq> CHR '' ''"
    and "body ! (i * (nat width + 1) + j) \<noteq> CHR ''#''"
  shows "\<exists>e. load_ascii width0 height0 x0 fs path = Inl e \<and> kind_of e = MalformedContent"
proof -
  let ?s0 = "\<lparr>pending = txt, eofbit = False, failbit = False\<rparr>"
  obtain s1 w where e1: "extract_int ?s0 0 = (s1, w)" by (cases "extract_int ?s0 0")
  obtain s2 h where e2: "extract_int s1 0 = (s2, h)" by (cases "extract_int s1 0")
  from assms(2) e1 e2 have ok2: "\<not> failbit s2" and wh: "w = width" "h = height"
    and pend: "pending s2 = c0 # body"
    by (auto simp: ascii_header_def split: if_splits)
  from extract_int_ok [OF e2 ok2, of height0]
  have e2': "extract_int s1 height0 = (s2, h)" and g1: "good s1" and eof2: "eofbit s2 = (pending s2 = [])"
    by simp_all
  from g1 have ok1: "\<not> failbit s1" by (simp add: good_def)
  from extract_int_ok [OF e1 ok1, of width0] have e1': "extract_int ?s0 width0 = (s1, w)" by simp
  have g2: "good s2" using ok2 eof2 pend by (simp add: good_def)
  obtain W H where WH: "width = int W" "height = int H"
    using assms(3,4) by (metis nonneg_int_cases)
  let ?s3 = "s2\<lparr>pending := body\<rparr>"
  have sg: "stream_get s2 x0 = (?s3, c0)" using g2 pend by (simp add: stream_get_def)
  let ?g0 = "\<lparr>theGrid = replicate (nat (int W * int H)) DEAD, num_columns = int W, num_rows = int H\<rparr>"
  have gr: "Grid_wh (int W) (int H) = Inr ?g0" by (simp add: Grid_wh_def)
  have "\<exists>e. load_ascii_rows (int W) (int H) (int 0) ?s3 c0 ?g0 = Inl e \<and> kind_of e = MalformedContent"
    using assms(5-9) g2 WH
    by (intro load_ascii_rows_bad [where d = i and J = j])
       (simp_all add: good_def nat_mult_distrib)
  then obtain e where rows: "load_ascii_rows (int W) (int H) 0 ?s3 c0 ?g0 = Inl e"
    and k: "kind_of e = MalformedContent" by auto
  have "load_ascii width0 height0 x0 fs path = Inl e"
    unfolding load_ascii_def using assms(1) e1' e2' wh WH sg gr rows
    by (simp add: open_in_def)
  with k show ?thesis by simp
qed

theorem bad_cell_character_is_malformed_witness:
  "(\<lambda>p. Data (''3 3'' @ [CHR 0x0A] @ ''# #'' @ [CHR 0x0A] @ ''#x#'' @ [CHR 0x0A] @ ''###'' @ [CHR 0x0A])) ''bad.gol''
      = Data (''3 3'' @ [CHR 0x0A] @ ''# #'' @ [CHR 0x0A] @ ''#x#'' @ [CHR 0x0A] @ ''###'' @ [CHR 0x0A]) \<and>
   ascii_header (''3 3'' @ [CHR 0x0A] @ ''# #'' @ [CHR 0x0A] @ ''#x#'' @ [CHR 0x0A] @ ''###'' @ [CHR 0x0A])
      = Some (3, 3, CHR 0x0A # (''# #'' @ [CHR 0x0A] @ ''#x#'' @ [CHR 0x0A] @ ''###'' @ [CHR 0x0A])) \<and>
   (0::int) \<le> 3 \<and> int 1 < 3 \<and>
   1 * (nat 3 + 1) + 1 < length (''# #'' @ [CHR 0x0A] @ ''#x#'' @ [CHR 0x0A] @ ''###'' @ [CHR 0x0A]) \<and>
   (''# #'' @ [CHR 0x0A] @ ''#x#'' @ [CHR 0x0A] @ ''###'' @ [CHR 0x0A]) ! (1 * (nat 3 + 1) + 1) = CHR ''x'' \<and>
   (\<exists>e. load_ascii 0 0 (CHR ''?'')
          (\<lambda>p. Data (''3 3'' @ [CHR 0x0A] @ ''# #'' @ [CHR 0x0A] @ ''#x#'' @ [CHR 0x0A] @ ''###'' @ [CHR 0x0A]))
          ''bad.gol'' = Inl e \<and> kind_of e = MalformedContent)"
proof -
  let ?body = "''# #'' @ [CHR 0x0A] @ ''#x#'' @ [CHR 0x0A] @ ''###'' @ [CHR 0x0A]"
  let ?txt = "''3 3'' @ [CHR 0x0A] @ ?body"
  let ?fs = "\<lambda>p::string. Data ?txt"
  have a: "?fs ''bad.gol'' = Data ?txt" by simp
  have b: "ascii_header ?txt = Some (3, 3, CHR 0x0A # ?body)" by code_simp
  have c: "(0::int) \<le> 3" "int 1 < 3" by simp_all
  have d: "1 * (nat 3 + 1) + 1 < length ?body" by simp
  have e: "?body ! (1 * (nat 3 + 1) + 1) = CHR ''x''" by simp
  have f: "?body ! (1 * (nat 3 + 1) + 1) \<noteq> CHR '' ''" "?body ! (1 * (nat 3 + 1) + 1) \<noteq> CHR ''#''"
    by simp_all
  from bad_cell_character_is_malformed
    [where fs = ?fs and path = "''bad.gol''" and i = 1 and j = 1 and ?width0.0 = 0
       and ?height0.0 = 0 and ?x0.0 = "CHR ''?''", OF a b c(1) c(1) c(2) c(2) d f] a b c d e
  show ?thesis by blast
qed

section \<open>The binary format: claims\<close>

text \<open>
  Claim C3, as amended.  For a grid that satisfies the class invariant, \<open>save_binary\<close>
  writes the width and the height as four little-endian two's-complement bytes each and
  then exactly \<open>width * height div 8 + 1\<close> body bytes (one more than
  \<open>ceil(width * height / 8)\<close> when the cell count is a multiple of 8, so one byte for
  an empty grid).  In every body byte after the first, bit \<open>j\<close> of byte \<open>k\<close> is 1
  exactly when cell \<open>8 * k + j\<close> of the row-major buffer exists and is ALIVE, so the
  unused bits are 0; in the first body byte the bit of every ALIVE cell is 1.
\<close>

theorem save_binary_layout:
  assumes "grid_ok g" and "fs path \<noteq> Locked"
  shows "\<exists>body.
      save_binary buffer0 fs path g =
        Inr (fs(path := Data (int_bytes (num_columns g) @ int_bytes (num_rows g) @ body))) \<and>
      length (int_bytes (num_columns g)) = 4 \<and> length (int_bytes (num_rows g)) = 4 \<and>
      bytes_int (int_bytes (num_columns g)) = num_columns g \<and>
      bytes_int (int_bytes (num_rows g)) = num_rows g \<and>
      length body = nat (num_columns g * num_rows g div 8 + 1) \<and>
      (\<forall>k<length body. \<forall>j<8.
         (0 < k \<longrightarrow> bit (body ! k) j = cell_bit g (8 * k + j)) \<and>
         (cell_bit g (8 * k + j) \<longrightarrow> bit (body ! k) j))"
proof -
  let ?K = "length (theGrid g) div 8"
  let ?body = "(buffer0 OR packed_byte g 0) # map (packed_byte g) [1..<Suc ?K]"
  have range: "INT_MIN \<le> num_columns g" "num_columns g \<le> INT_MAX"
    "INT_MIN \<le> num_rows g" "num_rows g \<le> INT_MAX"
    using assms(1) by (simp_all add: grid_ok_def INT_MIN_def)
  have len: "int (length (theGrid g)) = num_columns g * num_rows g"
    using assms(1) by (simp add: grid_ok_def)
  have K: "num_columns g * num_rows g div 8 = int ?K"
    unfolding len [symmetric] by (simp add: zdiv_int)
  have "length ?body = Suc ?K" by (simp del: upt_Suc)
  also have "\<dots> = nat (int ?K + 1)" by simp
  finally have l: "length ?body = nat (num_columns g * num_rows g div 8 + 1)"
    unfolding K .
  have bits: "\<forall>k<length ?body. \<forall>j<8.
         (0 < k \<longrightarrow> bit (?body ! k) j = cell_bit g (8 * k + j)) \<and>
         (cell_bit g (8 * k + j) \<longrightarrow> bit (?body ! k) j)"
  proof (intro allI impI conjI)
    fix k j :: nat
    assume k: "k < length ?body" and j: "j < 8"
    {
      assume "0 < k"
      then obtain k' where k': "k = Suc k'" by (cases k) auto
      with k have "?body ! k = packed_byte g (1 + k')" by (simp del: upt_Suc)
      with j k' show "bit (?body ! k) j = cell_bit g (8 * k + j)"
        by (simp add: bit_packed_byte)
    }
    {
      assume c: "cell_bit g (8 * k + j)"
      show "bit (?body ! k) j"
      proof (cases k)
        case 0
        with c j show ?thesis by (simp add: bit_simps bit_packed_byte)
      next
        case (Suc k')
        with k have "?body ! k = packed_byte g (1 + k')" by (simp del: upt_Suc)
        with j c Suc show ?thesis by (simp add: bit_packed_byte)
      qed
    }
  qed
  show ?thesis
    using save_binary_eq [where fs = fs and path = path and ?buffer0.0 = buffer0, OF assms]
      bytes_int_bytes [OF range(1,2)]
      bytes_int_bytes [OF range(3,4)] l bits
    by (intro exI [of _ ?body]) simp
qed

theorem save_binary_layout_witness:
  "grid_ok \<lparr>theGrid = ''# '', num_columns = 2, num_rows = 1\<rparr> \<and>
   (no_files :: byte filesystem) ''a.bgol'' \<noteq> Locked \<and>
   (\<exists>body.
      save_binary 255 no_files ''a.bgol'' \<lparr>theGrid = ''# '', num_columns = 2, num_rows = 1\<rparr> =
        Inr (no_files(''a.bgol'' := Data (int_bytes 2 @ int_bytes 1 @ body))) \<and>
      length body = nat (2 * 1 div 8 + 1))"
proof -
  let ?g = "\<lparr>theGrid = ''# '', num_columns = 2, num_rows = 1\<rparr>"
  have a: "grid_ok ?g" by (simp add: grid_ok_def INT_MAX_def)
  have b: "(no_files :: byte filesystem) ''a.bgol'' \<noteq> Locked" by (simp add: no_files_def)
  from save_binary_layout [where fs = no_files and path = "''a.bgol''" and ?buffer0.0 = 255, OF a b]
  have "\<exists>body.
      save_binary 255 no_files ''a.bgol'' ?g =
        Inr (no_files(''a.bgol'' := Data (int_bytes 2 @ int_bytes 1 @ body))) \<and>
      length body = nat (2 * 1 div 8 + 1)"
    by auto
  with a b show ?thesis by blast
qed

text \<open>
  Claim C3 as it is stated fails on the byte count: for the empty 0x0 grid the body is
  not the \<open>ceil(0 / 8) = 0\<close> bytes of the claim but one byte.
\<close>

theorem save_binary_empty_grid_counterexample:
  "save_binary 0 no_files ''empty.bgol'' \<lparr>theGrid = [], num_columns = 0, num_rows = 0\<rparr> =
     Inr (no_files(''empty.bgol'' := Data (int_bytes 0 @ int_bytes 0 @ [0]))) \<and>
   length [0 :: byte] \<noteq> ceil_bytes (0 * 0)"
proof -
  let ?g = "\<lparr>theGrid = [], num_columns = 0, num_rows = 0\<rparr>"
  have ok: "grid_ok ?g" by (simp add: grid_ok_def INT_MAX_def)
  have nl: "(no_files :: byte filesystem) ''empty.bgol'' \<noteq> Locked" by (simp add: no_files_def)
  have pk: "packed_byte ?g 0 = 0" by (simp add: packed_byte_def cell_bit_def)
  show ?thesis
    using save_binary_eq [where fs = no_files and path = "''empty.bgol''" and ?buffer0.0 = 0, OF ok nl]
    by (simp add: pk ceil_bytes_def)
qed


text \<open>
  Claim C7.  A file whose header parses to a negative width or a negative height is
  rejected by both loaders with an invalid-dimension error, and no grid is returned:
  \<open>load_ascii\<close> by its own check of the parsed numbers, \<open>load_binary\<close> by the
  constructor of the grid it builds from them.
\<close>

theorem negative_dimensions_are_rejected:
  "(fs path = Data chars \<and> ascii_header chars = Some (width, height, rest) \<and>
      (width < 0 \<or> height < 0) \<longrightarrow>
        load_ascii width0 height0 x0 fs path = Inl NotPositiveInteger) \<and>
   (bfs bpath = Data bs \<and> binary_header bs = Some (bwidth, bheight, body) \<and>
      (bwidth < 0 \<or> bheight < 0) \<longrightarrow>
        load_binary bwidth0 bheight0 buffer0 bfs bpath = Inl InvalidDimension) \<and>
   kind_of NotPositiveInteger = InvalidDim \<and> kind_of InvalidDimension = InvalidDim"
proof (intro conjI impI)
  assume a: "fs path = Data chars \<and> ascii_header chars = Some (width, height, rest) \<and>
      (width < 0 \<or> height < 0)"
  let ?s0 = "\<lparr>pending = chars, eofbit = False, failbit = False\<rparr>"
  obtain s1 w where e1: "extract_int ?s0 0 = (s1, w)" by (cases "extract_int ?s0 0")
  obtain s2 h where e2: "extract_int s1 0 = (s2, h)" by (cases "extract_int s1 0")
  from a e1 e2 have ok2: "\<not> failbit s2" and wh: "w = width" "h = height"
    by (auto simp: ascii_header_def split: if_splits)
  from extract_int_ok [OF e2 ok2, of height0]
  have e2': "extract_int s1 height0 = (s2, h)" and g1: "good s1" by simp_all
  from g1 have ok1: "\<not> failbit s1" by (simp add: good_def)
  from extract_int_ok [OF e1 ok1, of width0] have e1': "extract_int ?s0 width0 = (s1, w)" by simp
  show "load_ascii width0 height0 x0 fs path = Inl NotPositiveInteger"
    unfolding load_ascii_def using a e1' e2' wh by (simp add: open_in_def)
next
  assume b: "bfs bpath = Data bs \<and> binary_header bs = Some (bwidth, bheight, body) \<and>
      (bwidth < 0 \<or> bheight < 0)"
  then have h: "bfs bpath = Data bs" "binary_header bs = Some (bwidth, bheight, body)" by simp_all
  show "load_binary bwidth0 bheight0 buffer0 bfs bpath = Inl InvalidDimension"
    unfolding load_binary_def
    using read_header [OF h(2)] b by (simp add: Grid_wh_def open_in_def)
qed simp_all

theorem negative_dimensions_are_rejected_witness:
  "(no_files(''n.gol'' := Data (''-3 4'' @ [CHR 0x0A]))) ''n.gol'' = Data (''-3 4'' @ [CHR 0x0A]) \<and>
   ascii_header (''-3 4'' @ [CHR 0x0A]) = Some (- 3, 4, [CHR 0x0A]) \<and>
   (- 3 :: int) < 0 \<and>
   load_ascii 0 0 (CHR ''?'') (no_files(''n.gol'' := Data (''-3 4'' @ [CHR 0x0A]))) ''n.gol'' =
     Inl NotPositiveInteger \<and>
   (no_files(''n.bgol'' := Data [2, 0, 0, 0, 255, 255, 255, 255, 0 :: byte])) ''n.bgol'' =
     Data [2, 0, 0, 0, 255, 255, 255, 255, 0] \<and>
   binary_header [2, 0, 0, 0, 255, 255, 255, 255, 0] = Some (2, - 1, [0]) \<and>
   (- 1 :: int) < 0 \<and>
   load_binary 0 0 0 (no_files(''n.bgol'' := Data [2, 0, 0, 0, 255, 255, 255, 255, 0])) ''n.bgol'' =
     Inl InvalidDimension"
proof -
  let ?txt = "''-3 4'' @ [CHR 0x0A]"
  let ?fs = "no_files(''n.gol'' := Data ?txt)"
  let ?bs = "[2, 0, 0, 0, 255, 255, 255, 255, 0 :: byte]"
  let ?bfs = "no_files(''n.bgol'' := Data ?bs)"
  have a: "?fs ''n.gol'' = Data ?txt" by simp
  have b: "ascii_header ?txt = Some (- 3, 4, [CHR 0x0A])" by code_simp
  have c: "?bfs ''n.bgol'' = Data ?bs" by simp
  have d: "binary_header ?bs = Some (2, - 1, [0])"
    by (simp add: binary_header_def bytes_int_def bytes_word_def)
  from negative_dimensions_are_rejected
    [where fs = ?fs and path = "''n.gol''" and chars = ?txt and width = "- 3" and height = 4
       and rest = "[CHR 0x0A]" and bfs = ?bfs and bpath = "''n.bgol''" and bs = ?bs
       and bwidth = 2 and bheight = "- 1" and body = "[0]"
       and ?width0.0 = 0 and ?height0.0 = 0 and ?x0.0 = "CHR ''?''"
       and ?bwidth0.0 = 0 and ?bheight0.0 = 0 and ?buffer0.0 = 0] a b c d
  show ?thesis by simp
qed

text \<open>
  Claim C2 fails on the code.  \<open>save_binary\<close> packs the first body byte on top of the
  never-initialised \<^verbatim>\<open>buffer[0]\<close>.  With the 3x3 grid of DEAD cells and a buffer
  that happens to hold 1, the file gets the first body byte 1 and \<open>load_binary\<close>
  returns a grid whose cell \<open>(0, 0)\<close> is ALIVE.  (When the buffer starts at 0 the
  round trip holds for every grid: lemma \<open>binary_round_trip_zeroed_buffer\<close>.)
\<close>

theorem binary_round_trip_uninitialised_buffer:
  "save_binary 1 no_files ''d.bgol'' \<lparr>theGrid = ''         '', num_columns = 3, num_rows = 3\<rparr> =
     Inr (no_files(''d.bgol'' := Data [3, 0, 0, 0, 3, 0, 0, 0, 1, 0])) \<and>
   load_binary 0 0 0 (no_files(''d.bgol'' := Data [3, 0, 0, 0, 3, 0, 0, 0, 1, 0])) ''d.bgol'' =
     Inr \<lparr>theGrid = ''#        '', num_columns = 3, num_rows = 3\<rparr>"
proof -
  let ?g = "\<lparr>theGrid = ''         '', num_columns = 3, num_rows = 3\<rparr>"
  have ok: "grid_ok ?g" by (simp add: grid_ok_def INT_MAX_def)
  have nl: "(no_files :: byte filesystem) ''d.bgol'' \<noteq> Locked" by (simp add: no_files_def)
  have ib: "int_bytes 3 = [3, 0, 0, 0]" by (simp add: int_bytes_def word_bytes_def)
  have pk: "packed_byte ?g 0 = 0" "packed_byte ?g (Suc 0) = 0"
    by (simp_all add: packed_byte_def cell_bit_def ALIVE_def)
  have "[1..<Suc (length (theGrid ?g) div 8)] = [1]" by (simp add: upt_conv_Cons)
  then have sv: "save_binary 1 no_files ''d.bgol'' ?g =
     Inr (no_files(''d.bgol'' := Data [3, 0, 0, 0, 3, 0, 0, 0, 1, 0]))"
    using save_binary_eq [where fs = no_files and path = "''d.bgol''" and ?buffer0.0 = 1, OF ok nl]
    by (simp add: ib pk)
  have ld: "load_binary 0 0 0 (no_files(''d.bgol'' := Data [3, 0, 0, 0, 3, 0, 0, 0, 1, 0])) ''d.bgol'' =
     Inr \<lparr>theGrid = ''#        '', num_columns = 3, num_rows = 3\<rparr>"
    by code_simp
  from sv ld show ?thesis by simp
qed

section \<open>The World: claims\<close>

text \<open>
  Claim C1.  For a World that satisfies its invariant and either value of
  \<open>toroidal\<close>, \<open>step\<close> succeeds; the new \<open>current\<close> has the dimensions of the
  old one and holds, at every cell \<open>(x, y)\<close>, ALIVE if the cell was ALIVE with 2 or 3
  ALIVE neighbours, ALIVE if it was DEAD with exactly 3, and DEAD otherwise, all counts
  taken in the old \<open>current\<close> (positions outside the grid do not count, or wrap
  modulo the width and the height with \<open>toroidal\<close>); the new \<open>future\<close> is the old
  \<open>current\<close>, by the swap; and the new \<open>current\<close> is a function of the old
  \<open>current\<close> and \<open>toroidal\<close> alone.
\<close>

theorem step_applies_the_rule:
  assumes "world_ok w"
  shows "\<exists>w'. step w toroidal = Inr w' \<and>
      future w' = current w \<and>
      current w' = next_generation (current w) toroidal \<and>
      num_columns (current w') = num_columns (current w) \<and>
      num_rows (current w') = num_rows (current w) \<and>
      (\<forall>x y. in_bounds (current w) x y \<longrightarrow>
         (\<exists>c. get (current w) x y = Inr c \<and>
              get (current w') x y =
                Inr (if c = ALIVE \<and> (count_neighbours (current w) x y toroidal = 2 \<or>
                                      count_neighbours (current w) x y toroidal = 3) then ALIVE
                     else if c = DEAD \<and> count_neighbours (current w) x y toroidal = 3 then ALIVE
                     else DEAD)))"
proof -
  let ?g = "current w"
  let ?n = "next_generation ?g toroidal"
  from assms have ok: "grid_ok ?g" by (simp add: world_ok_def)
  then obtain W H where wh: "num_columns ?g = int W" "num_rows ?g = int H"
    by (metis grid_ok_def nonneg_int_cases)
  have len: "length (theGrid ?g) = W * H" using ok wh by (rule grid_ok_length)
  have cells: "\<exists>c. get ?g x y = Inr c \<and>
              get ?n x y =
                Inr (if c = ALIVE \<and> (count_neighbours ?g x y toroidal = 2 \<or>
                                      count_neighbours ?g x y toroidal = 3) then ALIVE
                     else if c = DEAD \<and> count_neighbours ?g x y toroidal = 3 then ALIVE
                     else DEAD)"
    if b: "in_bounds ?g x y" for x y
  proof -
    from b wh obtain X Y where xy: "x = int X" "y = int Y" and X: "X < W" and Y: "Y < H"
      by (auto simp: in_bounds_def elim!: nonneg_int_cases)
    let ?k = "Y * W + X"
    have k: "?k < W * H"
    proof -
      have "(Y + 1) * W \<le> H * W" using Y by (intro mult_le_mono1) simp
      then show ?thesis using X by (simp add: algebra_simps)
    qed
    have nk: "nat (int Y * int W + int X) = ?k"
      by (simp add: nat_add_distrib nat_mult_distrib)
    have g1: "get ?g x y = Inr (theGrid ?g ! ?k)"
      unfolding xy using ok wh Y X by (rule get_in_range)
    have g2: "get ?n x y = Inr (theGrid ?n ! ?k)"
      using b nk wh xy by (simp add: get_def in_bounds_def get_index_def next_generation_def)
    have "theGrid ?n ! ?k =
            next_cell (theGrid ?g ! ?k) (count_neighbours ?g x y toroidal)"
      using k len index_mod_div [OF X, of Y] wh xy by (simp add: next_generation_def)
    with g1 g2 show ?thesis by (simp add: next_cell_def)
  qed
  have "step w toroidal = Inr \<lparr>current = ?n, future = ?g\<rparr>"
    using assms by (rule step_eq)
  moreover have "num_columns ?n = num_columns ?g" "num_rows ?n = num_rows ?g"
    by (simp_all add: next_generation_def)
  ultimately show ?thesis using cells by simp
qed

theorem step_applies_the_rule_witness:
  "world_ok \<lparr>current = \<lparr>theGrid = ''###'', num_columns = 3, num_rows = 1\<rparr>,
             future = \<lparr>theGrid = ''   '', num_columns = 3, num_rows = 1\<rparr>\<rparr> \<and>
   (\<exists>w'. step \<lparr>current = \<lparr>theGrid = ''###'', num_columns = 3, num_rows = 1\<rparr>,
                 future = \<lparr>theGrid = ''   '', num_columns = 3, num_rows = 1\<rparr>\<rparr> False = Inr w' \<and>
      future w' = \<lparr>theGrid = ''###'', num_columns = 3, num_rows = 1\<rparr> \<and>
      current w' = next_generation \<lparr>theGrid = ''###'', num_columns = 3, num_rows = 1\<rparr> False) \<and>
   in_bounds \<lparr>theGrid = ''###'', num_columns = 3, num_rows = 1\<rparr> 1 0 \<and>
   get (next_generation \<lparr>theGrid = ''###'', num_columns = 3, num_rows = 1\<rparr> False) 1 0 = Inr ALIVE \<and>
   get (next_generation \<lparr>theGrid = ''###'', num_columns = 3, num_rows = 1\<rparr> False) 0 0 = Inr DEAD"
proof -
  let ?g = "\<lparr>theGrid = ''###'', num_columns = 3, num_rows = 1\<rparr>"
  let ?w = "\<lparr>current = ?g, future = \<lparr>theGrid = ''   '', num_columns = 3, num_rows = 1\<rparr>\<rparr>"
  have a: "world_ok ?w" by (simp add: world_ok_def grid_ok_def INT_MAX_def)
  have b: "in_bounds ?g 1 0" by (simp add: in_bounds_def)
  have c: "get (next_generation ?g False) 1 0 = Inr ALIVE"
    "get (next_generation ?g False) 0 0 = Inr DEAD"
    by code_simp+
  from step_applies_the_rule [OF a, of False]
  have "\<exists>w'. step ?w False = Inr w' \<and> future w' = ?g \<and> current w' = next_generation ?g False"
    by auto
  with a b c show ?thesis by blast
qed

text \<open>
  Claim C5 fails on the model of \<open>step\<close>.  The five ALIVE cells of \<open>glider\<close> are as
  claimed, but on a 3x3 torus every cell has the other eight cells as its neighbours:
  an ALIVE cell of the glider counts 4 and dies, a DEAD one counts 5 and stays DEAD.
  One toroidal step leaves no cell ALIVE, which is no phase of the glider.
\<close>

theorem glider_toroidal_step_counterexample:
  "step_once glider True = Inr \<lparr>theGrid = ''         '', num_columns = 3, num_rows = 3\<rparr> \<and>
   \<not> is_glider_phase \<lparr>theGrid = ''         '', num_columns = 3, num_rows = 3\<rparr>"
  by code_simp

text \<open>
  Claim C5, as amended.  \<open>glider\<close> returns the 3x3 grid whose ALIVE cells are exactly
  \<open>(0,2), (1,2), (2,2), (2,1), (1,0)\<close>, a phase of the glider; stepping a World that
  holds it once with \<open>toroidal\<close> set yields the 3x3 grid in which every cell is DEAD.
\<close>

theorem glider_toroidal_step_dies:
  "glider = Inr \<lparr>theGrid = '' #   ####'', num_columns = 3, num_rows = 3\<rparr> \<and>
   set (alive_cells \<lparr>theGrid = '' #   ####'', num_columns = 3, num_rows = 3\<rparr>) =
     {(0, 2), (1, 2), (2, 2), (2, 1), (1, 0)} \<and>
   is_glider_phase \<lparr>theGrid = '' #   ####'', num_columns = 3, num_rows = 3\<rparr> \<and>
   step_once glider True = Inr \<lparr>theGrid = replicate 9 DEAD, num_columns = 3, num_rows = 3\<rparr>"
proof -
  have a: "glider = Inr \<lparr>theGrid = '' #   ####'', num_columns = 3, num_rows = 3\<rparr>"
    by code_simp
  have b: "alive_cells \<lparr>theGrid = '' #   ####'', num_columns = 3, num_rows = 3\<rparr> =
     [(1, 0), (2, 1), (0, 2), (1, 2), (2, 2)]"
    by code_simp
  have c: "is_glider_phase \<lparr>theGrid = '' #   ####'', num_columns = 3, num_rows = 3\<rparr>"
    by code_simp
  have d: "step_once glider True = Inr \<lparr>theGrid = replicate 9 DEAD, num_columns = 3, num_rows = 3\<rparr>"
    by code_simp
  from a b c d show ?thesis by auto
qed

section \<open>Merging: claims\<close>

text \<open>
  Claim C8.  A call \<open>g.merge(p, x0, y0, alive_only)\<close> on two different objects of the
  caller always returns, keeps every object of the caller but \<open>g\<close> as it was, and in
  particular leaves the pattern \<open>p\<close> with the width, the height and the cells it had:
  the body works on \<open>g\<close> and on its own copy of \<open>p\<close>.
\<close>

theorem merge_leaves_pattern_unchanged:
  assumes "a < length st" and "b < length st" and "a \<noteq> b"
  shows "\<exists>st'. call_merge st a b x0 y0 alive_only = Inr st' \<and>
           length st' = length st \<and> st' ! b = st ! b \<and>
           (\<forall>k<length st. k \<noteq> a \<longrightarrow> st' ! k = st ! k)"
proof -
  let ?st1 = "st @ [st ! b]"
  have ne: "a \<noteq> length st" using assms(1) by simp
  from merge_rows_frame [OF ne, of 0 "num_rows (?st1 ! length st)" ?st1
      "num_columns (?st1 ! length st)" x0 y0 alive_only]
  obtain st2 where body: "merge a (length st) x0 y0 alive_only ?st1 = Inr st2"
    and l2: "length st2 = length ?st1" and f2: "\<And>k. k \<noteq> a \<Longrightarrow> st2 ! k = ?st1 ! k"
    by (auto simp: merge_def get_width_def get_height_def)
  have "call_merge st a b x0 y0 alive_only = Inr (take (length st) st2)"
    using body by (simp add: call_merge_def Let_def)
  moreover have "length (take (length st) st2) = length st" using l2 by simp
  moreover have "\<forall>k<length st. k \<noteq> a \<longrightarrow> take (length st) st2 ! k = st ! k"
    using f2 by (simp add: nth_append)
  ultimately show ?thesis using assms(2,3) by auto
qed

theorem merge_leaves_pattern_unchanged_witness:
  "(0 :: nat) < length [\<lparr>theGrid = ''    '', num_columns = 2, num_rows = 2\<rparr>,
                        \<lparr>theGrid = ''# '', num_columns = 2, num_rows = 1\<rparr>] \<and>
   (1 :: nat) < length [\<lparr>theGrid = ''    '', num_columns = 2, num_rows = 2\<rparr>,
                        \<lparr>theGrid = ''# '', num_columns = 2, num_rows = 1\<rparr>] \<and>
   (0 :: nat) \<noteq> 1 \<and>
   call_merge [\<lparr>theGrid = ''    '', num_columns = 2, num_rows = 2\<rparr>,
               \<lparr>theGrid = ''# '', num_columns = 2, num_rows = 1\<rparr>] 0 1 1 1 True =
     Inr [\<lparr>theGrid = ''   #'', num_columns = 2, num_rows = 2\<rparr>,
          \<lparr>theGrid = ''# '', num_columns = 2, num_rows = 1\<rparr>] \<and>
   (\<exists>st'. call_merge [\<lparr>theGrid = ''    '', num_columns = 2, num_rows = 2\<rparr>,
                       \<lparr>theGrid = ''# '', num_columns = 2, num_rows = 1\<rparr>] 0 1 1 1 True = Inr st' \<and>
      st' ! 1 = [\<lparr>theGrid = ''    '', num_columns = 2, num_rows = 2\<rparr>,
                 \<lparr>theGrid = ''# '', num_columns = 2, num_rows = 1\<rparr>] ! 1)"
proof -
  let ?st = "[\<lparr>theGrid = ''    '', num_columns = 2, num_rows = 2\<rparr>,
              \<lparr>theGrid = ''# '', num_columns = 2, num_rows = 1\<rparr>]"
  have a: "(0 :: nat) < length ?st" "(1 :: nat) < length ?st" "(0 :: nat) \<noteq> 1" by simp_all
  have e: "call_merge ?st 0 1 1 1 True =
     Inr [\<lparr>theGrid = ''   #'', num_columns = 2, num_rows = 2\<rparr>,
          \<lparr>theGrid = ''# '', num_columns = 2, num_rows = 1\<rparr>]"
    by code_simp
  from merge_leaves_pattern_unchanged [OF a, of 1 1 True]
  have "\<exists>st'. call_merge ?st 0 1 1 1 True = Inr st' \<and> st' ! 1 = ?st ! 1" by blast
  with a e show ?thesis by blast
qed

end
